theory Spec2Isabelle
  imports Main "HOL-Library.Word"
begin

section \<open>Values of the program\<close>

text \<open>
  The program is one Python class, \<open>ChromaDBManager\<close> of \<open>main.py\<close>. It walks a
  directory, hashes every regular file and records (filename, path, size, checksum,
  modification time) in one SQLite table, \<open>file_metadata\<close>, whose \<open>checksum\<close> column
  is \<open>UNIQUE\<close>.
\<close>

type_synonym byte = "8 word"

text \<open>
  Exceptions that leave the methods: a failed file-system call, a time that is no
  \<open>datetime\<close>, a failed SQL statement.
\<close>

datatype error = OSError | ValueError | OperationalError

text \<open>
  A Python \<open>datetime\<close>: the calendar and clock fields, counted as one number of
  microseconds since 1970-01-01 00:00, and the optional zone. \<open>replace(tzinfo=...)\<close> changes the zone only.
\<close>

datatype timezone = UTC | Offset int

record datetime =
  wall :: int
  tzinfo :: "timezone option"

definition replace_tzinfo :: "datetime \<Rightarrow> timezone \<Rightarrow> datetime" where
  "replace_tzinfo d z = d\<lparr>tzinfo := Some z\<rparr>"

section \<open>The table \<open>file_metadata\<close>\<close>

text \<open>
  One row of the table created by \<open>_initialize_sqlite_db\<close>. The rows are kept in
  the order of their insertion, which is the order of their ids.
\<close>

record row =
  row_id :: nat
  filename :: string
  path :: string
  upload_date :: nat
  file_size :: nat
  checksum :: string
  last_modified :: datetime

text \<open>
  The database file: the rows, and the counter that \<open>AUTOINCREMENT\<close> keeps in
  \<open>sqlite_sequence\<close> (the largest id ever given out).
\<close>

record database =
  file_metadata :: "row list"
  sqlite_sequence :: nat

text \<open>
  \<open>CREATE TABLE IF NOT EXISTS\<close>: a database file without the table gets an empty one,
  an existing table is left as it is.
\<close>

definition initialize_sqlite_db :: "database option \<Rightarrow> database" where
  "initialize_sqlite_db f =
     (case f of None \<Rightarrow> \<lparr>file_metadata = [], sqlite_sequence = 0\<rparr> | Some db \<Rightarrow> db)"

text \<open>\<open>SELECT path, checksum FROM file_metadata\<close>, made a Python set.\<close>

definition get_tracked_files :: "database \<Rightarrow> (string \<times> string) set" where
  "get_tracked_files db = set (map (\<lambda>r. (path r, checksum r)) (file_metadata db))"

text \<open>
  What the storage engine decides on its own during one call of
  \<open>_update_file_metadata\<close>: the value of \<open>CURRENT_TIMESTAMP\<close> at the k-th statement,
  whether the k-th statement raises, and whether the commit raises.
\<close>

record engine =
  current_timestamp :: "nat \<Rightarrow> nat"
  statement_fails :: "nat \<Rightarrow> bool"
  commit_fails :: bool

text \<open>
  A record of the pending batch, the Python tuple
  \<open>(file_path, file_size, checksum, last_modified)\<close>.
\<close>

type_synonym pending = "string \<times> nat \<times> string \<times> datetime"

text \<open>\<open>os.path.basename\<close> (posixpath): what follows the last slash.\<close>

definition basename :: "string \<Rightarrow> string" where
  "basename p = rev (takeWhile (\<lambda>c. c \<noteq> CHR ''/'') (rev p))"

text \<open>
  \<open>INSERT OR REPLACE INTO file_metadata (filename, path, file_size, checksum,
  last_modified)\<close>: the id is the next one of the sequence, \<open>upload_date\<close> takes its
  default \<open>CURRENT_TIMESTAMP\<close>, and every row that holds the same checksum is deleted
  before the new row is added (the conflict on the \<open>UNIQUE\<close> column).
\<close>

definition next_id :: "database \<Rightarrow> nat" where
  "next_id db = Suc (fold max (map row_id (file_metadata db)) (sqlite_sequence db))"

definition insert_or_replace ::
  "nat \<Rightarrow> string \<times> string \<times> nat \<times> string \<times> datetime \<Rightarrow> database \<Rightarrow> database" where
  "insert_or_replace now v db =
     (case v of (fname, fpath, fsize, csum, lm) \<Rightarrow>
        \<lparr>file_metadata =
           filter (\<lambda>r. checksum r \<noteq> csum) (file_metadata db) @
           [\<lparr>row_id = next_id db, filename = fname, path = fpath, upload_date = now,
             file_size = fsize, checksum = csum, last_modified = lm\<rparr>],
         sqlite_sequence = next_id db\<rparr>)"

text \<open>
  A connection: the database file as committed, and the open transaction if there is
  one. The first \<open>INSERT\<close> opens the transaction (sqlite3's default isolation level),
  \<open>commit\<close> writes it to the file, and a connection that is closed or dropped with an
  open transaction rolls it back.
\<close>

record connection =
  disk :: database
  txn :: "database option"

definition connect :: "database \<Rightarrow> connection" where
  "connect db = \<lparr>disk = db, txn = None\<rparr>"

definition view :: "connection \<Rightarrow> database" where
  "view c = (case txn c of None \<Rightarrow> disk c | Some w \<Rightarrow> w)"

definition commit :: "connection \<Rightarrow> connection" where
  "commit c = c\<lparr>disk := view c, txn := None\<rparr>"

definition close :: "connection \<Rightarrow> connection" where
  "close c = c\<lparr>txn := None\<rparr>"

text \<open>The body of the loop of \<open>_update_file_metadata\<close>, for the k-th record.\<close>

definition normalize_tz :: "datetime \<Rightarrow> datetime" where
  "normalize_tz lm = (if tzinfo lm = None then replace_tzinfo lm UTC else lm)"

definition execute_insert :: "engine \<Rightarrow> nat \<Rightarrow> connection \<Rightarrow> pending \<Rightarrow> error + connection" where
  "execute_insert eng k c rec =
     (case rec of (file_path, fsize, csum, lm) \<Rightarrow>
        (let lm' = normalize_tz lm in
         if statement_fails eng k then Inl OperationalError
         else Inr (c\<lparr>txn := Some (insert_or_replace (current_timestamp eng k)
                      (basename file_path, file_path, fsize, csum, lm') (view c))\<rparr>)))"

text \<open>
  The loop. An exception leaves it at once; the connection is returned as it was when
  the statement failed.
\<close>

fun execute_all :: "engine \<Rightarrow> nat \<Rightarrow> connection \<Rightarrow> pending list \<Rightarrow> error option \<times> connection" where
  "execute_all eng k c [] = (None, c)"
| "execute_all eng k c (rec # recs) =
     (case execute_insert eng k c rec of
        Inl e \<Rightarrow> (Some e, c)
      | Inr c' \<Rightarrow> execute_all eng (Suc k) c' recs)"

text \<open>What the logger receives.\<close>

datatype log_event = Checking string | Detected string | NoneFound | Updated nat

text \<open>
  \<open>_update_file_metadata\<close>: the outcome, the database file afterwards, and the log
  line. Only the path through \<open>conn.commit()\<close> writes the file; an exception leaves
  the method before \<open>commit\<close> and \<open>close\<close>, with the transaction open: the file
  is as it was, and the connection that is dropped rolls the transaction back.
\<close>

definition update_file_metadata ::
  "engine \<Rightarrow> database \<Rightarrow> pending list \<Rightarrow> (error + unit) \<times> database \<times> log_event list" where
  "update_file_metadata eng db new_files =
     (case execute_all eng 0 (connect db) new_files of
        (Some e, c) \<Rightarrow> (Inl e, disk c, [])
      | (None, c) \<Rightarrow>
          if commit_fails eng then (Inl OperationalError, disk c, [])
          else (Inr (), disk (close (commit c)), [Updated (length new_files)]))"

section \<open>The file system and the hash\<close>

text \<open>
  What the calls of \<open>os\<close>, \<open>open\<close> and \<open>hashlib\<close> answer during one pass.
  \<open>stat_type\<close> is the type of the file that \<open>os.stat\<close> finds at a path, following
  symbolic links (\<open>None\<close> when it finds nothing); \<open>islink\<close> says whether the entry
  itself is a symbolic link. \<open>sha256\<close> is the digest function of \<open>hashlib\<close>,
  \<open>utcoffset\<close> the local zone that \<open>datetime.fromtimestamp\<close> applies.
\<close>

datatype file_type = Regular | Directory | Special

record world =
  walk :: "string \<Rightarrow> (string \<times> string list \<times> string list) list"
  islink :: "string \<Rightarrow> bool"
  stat_type :: "string \<Rightarrow> file_type option"
  getsize :: "string \<Rightarrow> error + nat"
  getmtime :: "string \<Rightarrow> error + int"
  file_bytes :: "string \<Rightarrow> error + byte list"
  sha256 :: "byte list \<Rightarrow> byte list"
  utcoffset :: "int \<Rightarrow> int"

text \<open>\<open>os.path.isfile\<close> follows symbolic links and never raises.\<close>

definition isfile :: "world \<Rightarrow> string \<Rightarrow> bool" where
  "isfile w p = (stat_type w p = Some Regular)"

text \<open>\<open>os.path.join\<close> (posixpath) of two components.\<close>

definition join :: "string \<Rightarrow> string \<Rightarrow> string" where
  "join a b =
     (if b \<noteq> [] \<and> hd b = CHR ''/'' then b
      else if a = [] \<or> last a = CHR ''/'' then a @ b
      else a @ CHR ''/'' # b)"

text \<open>
  \<open>datetime.fromtimestamp\<close>: local time, no zone. It raises when the local time is
  not between the years 1 and 9999 (\<open>datetime.min\<close> and \<open>datetime.max\<close>, here in
  microseconds since the epoch).
\<close>

definition datetime_min :: int where
  "datetime_min = - 62135596800000000"

definition datetime_max :: int where
  "datetime_max = 253402300799999999"

definition fromtimestamp :: "world \<Rightarrow> int \<Rightarrow> error + datetime" where
  "fromtimestamp w t =
     (let local = t + utcoffset w t in
      if datetime_min \<le> local \<and> local \<le> datetime_max
      then Inr \<lparr>wall = local, tzinfo = None\<rparr>
      else Inl ValueError)"

text \<open>
  The hasher of \<open>hashlib\<close> is the bytes fed to it so far (\<open>update\<close> appends, as its
  documentation says: two updates are one update with the concatenation), and
  \<open>hexdigest\<close> writes the digest of them in lowercase hexadecimal.
\<close>

definition hexchar :: "nat \<Rightarrow> char" where
  "hexchar n = ''0123456789abcdef'' ! (n mod 16)"

definition hex_digits :: "char set" where
  "hex_digits = set ''0123456789abcdef''"

definition hex :: "byte list \<Rightarrow> string" where
  "hex bs = concat (map (\<lambda>b. [hexchar (unat b div 16), hexchar (unat b mod 16)]) bs)"

definition hasher_update :: "byte list \<Rightarrow> byte list \<Rightarrow> byte list" where
  "hasher_update h chunk = h @ chunk"

definition hexdigest :: "world \<Rightarrow> byte list \<Rightarrow> string" where
  "hexdigest w h = hex (sha256 w h)"

text \<open>
  \<open>iter(lambda: f.read(4096), b"")\<close>: the blocks that the reads return, on the
  bytes that are left to read, up to the first empty one.
\<close>

function read_blocks :: "byte list \<Rightarrow> byte list list" where
  "read_blocks rest =
     (let chunk = take 4096 rest in
      if chunk = [] then [] else chunk # read_blocks (drop 4096 rest))"
  by pat_completeness auto
termination
  by (relation "measure length") auto

declare read_blocks.simps [simp del]

text \<open>\<open>calculate_checksum\<close>: a new hasher, one update for each block, the digest.\<close>

definition calculate_checksum :: "world \<Rightarrow> string \<Rightarrow> error + string" where
  "calculate_checksum w file_path =
     (case file_bytes w file_path of
        Inl e \<Rightarrow> Inl e
      | Inr bs \<Rightarrow>
          Inr (hexdigest w (fold (\<lambda>chunk hasher. hasher_update hasher chunk) (read_blocks bs) [])))"

section \<open>The detection pass\<close>

text \<open>
  The inner loop of \<open>check_for_new_files\<close> over the file names of one directory, with
  the pending batch and the log so far. An exception of \<open>getsize\<close>, \<open>getmtime\<close>,
  \<open>fromtimestamp\<close> or of the hashing leaves the loop: the source catches nothing.
\<close>

fun scan_files ::
  "world \<Rightarrow> (string \<times> string) set \<Rightarrow> string \<Rightarrow> string list \<Rightarrow>
   pending list \<times> log_event list \<Rightarrow> (error + pending list) \<times> log_event list" where
  "scan_files w tracked root [] (new_files, lg) = (Inr new_files, lg)"
| "scan_files w tracked root (file # files) (new_files, lg) =
     (let file_path = join root file in
      if \<not> isfile w file_path then scan_files w tracked root files (new_files, lg)
      else
        case getsize w file_path of
          Inl e \<Rightarrow> (Inl e, lg)
        | Inr fsize \<Rightarrow>
            (case getmtime w file_path of
               Inl e \<Rightarrow> (Inl e, lg)
             | Inr mtime \<Rightarrow>
                 (case fromtimestamp w mtime of
                    Inl e \<Rightarrow> (Inl e, lg)
                  | Inr lm \<Rightarrow>
                      (case calculate_checksum w file_path of
                         Inl e \<Rightarrow> (Inl e, lg)
                       | Inr csum \<Rightarrow>
                           if (file_path, csum) \<in> tracked
                           then scan_files w tracked root files (new_files, lg)
                           else scan_files w tracked root files
                                  (new_files @ [(file_path, fsize, csum, lm)],
                                   lg @ [Detected file_path])))))"

text \<open>The outer loop, over the triples that \<open>os.walk\<close> yields.\<close>

fun scan_walk ::
  "world \<Rightarrow> (string \<times> string) set \<Rightarrow> (string \<times> string list \<times> string list) list \<Rightarrow>
   pending list \<times> log_event list \<Rightarrow> (error + pending list) \<times> log_event list" where
  "scan_walk w tracked [] (new_files, lg) = (Inr new_files, lg)"
| "scan_walk w tracked ((root, dirs, files) # rest) (new_files, lg) =
     (case scan_files w tracked root files (new_files, lg) of
        (Inl e, lg') \<Rightarrow> (Inl e, lg')
      | (Inr new_files', lg') \<Rightarrow> scan_walk w tracked rest (new_files', lg'))"

text \<open>
  \<open>check_for_new_files\<close>: the outcome, the database file afterwards and the log.
\<close>

definition check_for_new_files ::
  "world \<Rightarrow> engine \<Rightarrow> database \<Rightarrow> string \<Rightarrow> (error + unit) \<times> database \<times> log_event list" where
  "check_for_new_files w eng db directory =
     (let tracked_files = get_tracked_files db in
      case scan_walk w tracked_files (walk w directory) ([], [Checking directory]) of
        (Inl e, lg) \<Rightarrow> (Inl e, db, lg)
      | (Inr new_files, lg) \<Rightarrow>
          if new_files \<noteq> [] then
            (case update_file_metadata eng db new_files of
               (out, db', lg') \<Rightarrow> (out, db', lg @ lg'))
          else (Inr (), db, lg @ [NoneFound]))"

section \<open>Notions used to state the properties\<close>

text \<open>
  The effect of a whole batch on a database: the loop of \<open>_update_file_metadata\<close>
  when no statement fails, starting at statement k.
\<close>

fun insert_all :: "engine \<Rightarrow> nat \<Rightarrow> database \<Rightarrow> pending list \<Rightarrow> database" where
  "insert_all eng k db [] = db"
| "insert_all eng k db ((file_path, fsize, csum, lm) # recs) =
     insert_all eng (Suc k)
       (insert_or_replace (current_timestamp eng k)
          (basename file_path, file_path, fsize, csum, normalize_tz lm) db) recs"

definition pending_path :: "pending \<Rightarrow> string" where
  "pending_path rec = (case rec of (file_path, fsize, csum, lm) \<Rightarrow> file_path)"

definition pending_checksum :: "pending \<Rightarrow> string" where
  "pending_checksum rec = (case rec of (file_path, fsize, csum, lm) \<Rightarrow> csum)"

text \<open>A row that holds the values of a pending record (its id and upload date apart).\<close>

definition written_from :: "row \<Rightarrow> pending \<Rightarrow> bool" where
  "written_from r rec =
     (case rec of (file_path, fsize, csum, lm) \<Rightarrow>
        filename r = basename file_path \<and> path r = file_path \<and> file_size r = fsize \<and>
        checksum r = csum \<and> last_modified r = normalize_tz lm)"

definition rows_with :: "string \<Rightarrow> database \<Rightarrow> row list" where
  "rows_with c db = filter (\<lambda>r. checksum r = c) (file_metadata db)"

definition unique_checksums :: "database \<Rightarrow> bool" where
  "unique_checksums db = distinct (map checksum (file_metadata db))"

text \<open>The paths that the two loops of \<open>check_for_new_files\<close> visit, in walk order.\<close>

definition paths_of :: "(string \<times> string list \<times> string list) list \<Rightarrow> string list" where
  "paths_of triples = concat (map (\<lambda>(root, dirs, files). map (join root) files) triples)"

definition visited :: "world \<Rightarrow> string \<Rightarrow> string list" where
  "visited w directory = paths_of (walk w directory)"

text \<open>The triples of a walk without the names that \<open>os.path.isfile\<close> rejects.\<close>

definition regular_only ::
  "world \<Rightarrow> (string \<times> string list \<times> string list) list \<Rightarrow> (string \<times> string list \<times> string list) list" where
  "regular_only w triples =
     map (\<lambda>(root, dirs, files). (root, dirs, filter (\<lambda>f. isfile w (join root f)) files)) triples"

text \<open>
  What one iteration of the inner loop finds at a path: an exception, nothing (the path
  is not a regular file), or the record that it would append if the pair is not tracked.
\<close>

definition inspect :: "world \<Rightarrow> string \<Rightarrow> error + pending option" where
  "inspect w file_path =
     (if \<not> isfile w file_path then Inr None
      else
        case getsize w file_path of
          Inl e \<Rightarrow> Inl e
        | Inr fsize \<Rightarrow>
            (case getmtime w file_path of
               Inl e \<Rightarrow> Inl e
             | Inr mtime \<Rightarrow>
                 (case fromtimestamp w mtime of
                    Inl e \<Rightarrow> Inl e
                  | Inr lm \<Rightarrow>
                      (case calculate_checksum w file_path of
                         Inl e \<Rightarrow> Inl e
                       | Inr csum \<Rightarrow> Inr (Some (file_path, fsize, csum, lm))))))"

text \<open>The records of the visited paths whose pair is not tracked, in walk order.\<close>

fun new_records :: "world \<Rightarrow> (string \<times> string) set \<Rightarrow> string list \<Rightarrow> pending list" where
  "new_records w tracked [] = []"
| "new_records w tracked (p # ps) =
     (case inspect w p of
        Inr (Some rec) \<Rightarrow>
          if (p, pending_checksum rec) \<in> tracked then new_records w tracked ps
          else rec # new_records w tracked ps
      | _ \<Rightarrow> new_records w tracked ps)"

text \<open>
  The operations of the store, for sequences of them: the database file may not exist
  before the first \<open>Initialize\<close>; loading and a failed upsert change nothing.
\<close>

datatype operation = Initialize | LoadTracked | Upsert engine "pending list"

fun apply_operation :: "database option \<Rightarrow> operation \<Rightarrow> database option" where
  "apply_operation f Initialize = Some (initialize_sqlite_db f)"
| "apply_operation f LoadTracked = f"
| "apply_operation None (Upsert eng recs) = None"
| "apply_operation (Some db) (Upsert eng recs) =
     Some (fst (snd (update_file_metadata eng db recs)))"

definition rows_of :: "database option \<Rightarrow> row list" where
  "rows_of f = (case f of None \<Rightarrow> [] | Some db \<Rightarrow> file_metadata db)"

section \<open>Examples\<close>

text \<open>
  A directory without subdirectories, given by its entries: for each name whether the
  entry is a symbolic link, the type of the file that \<open>os.stat\<close> finds there, its
  size and modification time, and what reading it gives. The files of the examples hold
  the texts \<open>hello\<close>, \<open>world\<close> and \<open>hello2\<close>, and the digest function of the
  examples is SHA-256 on these three contents. Local time is ahead of UTC.
\<close>

definition hello_bytes :: "byte list" where
  "hello_bytes = [0x68, 0x65, 0x6c, 0x6c, 0x6f]"

definition world_bytes :: "byte list" where
  "world_bytes = [0x77, 0x6f, 0x72, 0x6c, 0x64]"

definition hello2_bytes :: "byte list" where
  "hello2_bytes = [0x68, 0x65, 0x6c, 0x6c, 0x6f, 0x32]"

definition sha256_table :: "byte list \<Rightarrow> byte list" where
  "sha256_table bs =
     (if bs = hello_bytes then
        [0x2c, 0xf2, 0x4d, 0xba, 0x5f, 0xb0, 0xa3, 0x0e, 0x26, 0xe8, 0x3b, 0x2a, 0xc5, 0xb9, 0xe2, 0x9e,
         0x1b, 0x16, 0x1e, 0x5c, 0x1f, 0xa7, 0x42, 0x5e, 0x73, 0x04, 0x33, 0x62, 0x93, 0x8b, 0x98, 0x24]
      else if bs = world_bytes then
        [0x48, 0x6e, 0xa4, 0x62, 0x24, 0xd1, 0xbb, 0x4f, 0xb6, 0x80, 0xf3, 0x4f, 0x7c, 0x9a, 0xd9, 0x6a,
         0x8f, 0x24, 0xec, 0x88, 0xbe, 0x73, 0xea, 0x8e, 0x5a, 0x6c, 0x65, 0x26, 0x0e, 0x9c, 0xb8, 0xa7]
      else if bs = hello2_bytes then
        [0x87, 0x29, 0x8c, 0xc2, 0xf3, 0x1f, 0xba, 0x73, 0x18, 0x1e, 0xa2, 0xa9, 0xe6, 0xef, 0x10, 0xdc,
         0xe2, 0x1e, 0xd9, 0x5e, 0x98, 0xbd, 0xac, 0x9c, 0x4e, 0x15, 0x04, 0xea, 0x16, 0xf4, 0x86, 0xe4]
      else [])"

definition hello_sha256 :: string where
  "hello_sha256 = ''2cf24dba5fb0a30e26e83b2ac5b9e29e1b161e5c1fa7425e73043362938b9824''"

definition world_sha256 :: string where
  "world_sha256 = ''486ea46224d1bb4fb680f34f7c9ad96a8f24ec88be73ea8e5a6c65260e9cb8a7''"

definition hello2_sha256 :: string where
  "hello2_sha256 = ''87298cc2f31fba73181ea2a9e6ef10dce21ed95e98bdac9c4e1504ea16f486e4''"

record node =
  is_link :: bool
  found :: "file_type option"
  size :: nat
  mtime :: int
  content :: "error + byte list"

definition flat_world :: "string \<Rightarrow> (string \<times> node) list \<Rightarrow> world" where
  "flat_world root entries =
     (let at = map_of (map (\<lambda>(name, n). (join root name, n)) entries) in
      \<lparr>walk = (\<lambda>d. if d = root then [(root, [], map fst entries)] else []),
       islink = (\<lambda>p. case at p of None \<Rightarrow> False | Some n \<Rightarrow> is_link n),
       stat_type = (\<lambda>p. case at p of None \<Rightarrow> None | Some n \<Rightarrow> found n),
       getsize = (\<lambda>p. case at p of None \<Rightarrow> Inl OSError
                    | Some n \<Rightarrow> if found n = None then Inl OSError else Inr (size n)),
       getmtime = (\<lambda>p. case at p of None \<Rightarrow> Inl OSError
                    | Some n \<Rightarrow> if found n = None then Inl OSError else Inr (mtime n)),
       file_bytes = (\<lambda>p. case at p of None \<Rightarrow> Inl OSError | Some n \<Rightarrow> content n),
       sha256 = sha256_table,
       utcoffset = (\<lambda>t. 3600)\<rparr>)"

definition plain_file :: "byte list \<Rightarrow> node" where
  "plain_file bs =
     \<lparr>is_link = False, found = Some Regular, size = length bs, mtime = 1000, content = Inr bs\<rparr>"

definition steady_engine :: engine where
  "steady_engine =
     \<lparr>current_timestamp = (\<lambda>k. 500 + k), statement_fails = (\<lambda>k. False), commit_fails = False\<rparr>"

definition faulty_engine :: engine where
  "faulty_engine =
     \<lparr>current_timestamp = (\<lambda>k. 500 + k), statement_fails = (\<lambda>k. k = 1), commit_fails = False\<rparr>"

definition empty_db :: database where
  "empty_db = \<lparr>file_metadata = [], sqlite_sequence = 0\<rparr>"

definition two_files :: world where
  "two_files = flat_world ''data'' [(''a.txt'', plain_file hello_bytes), (''b.txt'', plain_file world_bytes)]"

definition one_row_db :: database where
  "one_row_db =
     \<lparr>file_metadata =
        [\<lparr>row_id = 1, filename = ''a.txt'', path = ''data/a.txt'', upload_date = 400,
          file_size = 5, checksum = hello_sha256,
          last_modified = \<lparr>wall = 4600, tzinfo = Some UTC\<rparr>\<rparr>],
      sqlite_sequence = 1\<rparr>"

definition row_a :: row where
  "row_a = \<lparr>row_id = 1, filename = ''a.txt'', path = ''data/a.txt'', upload_date = 500,
             file_size = 5, checksum = hello_sha256,
             last_modified = \<lparr>wall = 4600, tzinfo = Some UTC\<rparr>\<rparr>"

definition row_b :: row where
  "row_b = \<lparr>row_id = 2, filename = ''b.txt'', path = ''data/b.txt'', upload_date = 501,
             file_size = 5, checksum = world_sha256,
             last_modified = \<lparr>wall = 4600, tzinfo = Some UTC\<rparr>\<rparr>"

definition row_c :: row where
  "row_c = \<lparr>row_id = 1, filename = ''c.txt'', path = ''data/c.txt'', upload_date = 500,
             file_size = 3, checksum = hello2_sha256,
             last_modified = \<lparr>wall = 7, tzinfo = Some (Offset 60)\<rparr>\<rparr>"

definition after_first_pass :: database where
  "after_first_pass = \<lparr>file_metadata = [row_a, row_b], sqlite_sequence = 2\<rparr>"

definition locked_file :: node where
  "locked_file =
     \<lparr>is_link = False, found = Some Regular, size = 1, mtime = 1000, content = Inl OSError\<rparr>"

definition one_unreadable :: world where
  "one_unreadable =
     flat_world ''data''
       [(''a.txt'', plain_file hello_bytes), (''b.txt'', locked_file), (''c.txt'', plain_file hello2_bytes)]"

definition link_to_file :: node where
  "link_to_file =
     \<lparr>is_link = True, found = Some Regular, size = 5, mtime = 1000, content = Inr hello_bytes\<rparr>"

definition fifo :: node where
  "fifo = \<lparr>is_link = False, found = Some Special, size = 0, mtime = 1000, content = Inl OSError\<rparr>"

definition dangling_link :: node where
  "dangling_link = \<lparr>is_link = True, found = None, size = 0, mtime = 0, content = Inl OSError\<rparr>"

definition with_links :: world where
  "with_links =
     flat_world ''data'' [(''pipe'', fifo), (''link'', link_to_file), (''lost'', dangling_link)]"

definition row_link :: row where
  "row_link = \<lparr>row_id = 1, filename = ''link'', path = ''data/link'', upload_date = 500,
             file_size = 5, checksum = hello_sha256,
             last_modified = \<lparr>wall = 4600, tzinfo = Some UTC\<rparr>\<rparr>"

definition twins :: world where
  "twins = flat_world ''data'' [(''a.txt'', plain_file hello_bytes), (''b.txt'', plain_file hello_bytes)]"

definition twin_a :: row where
  "twin_a = \<lparr>row_id = 3, filename = ''a.txt'', path = ''data/a.txt'', upload_date = 500,
              file_size = 5, checksum = hello_sha256,
              last_modified = \<lparr>wall = 4600, tzinfo = Some UTC\<rparr>\<rparr>"

definition twin_b :: row where
  "twin_b = \<lparr>row_id = 2, filename = ''b.txt'', path = ''data/b.txt'', upload_date = 501,
              file_size = 5, checksum = hello_sha256,
              last_modified = \<lparr>wall = 4600, tzinfo = Some UTC\<rparr>\<rparr>"







section \<open>Lemmas\<close>

lemma rows_with_insert_other:
  "c \<noteq> csum \<Longrightarrow> rows_with c (insert_or_replace now (fname, fpath, fsize, csum, lm) db) = rows_with c db"
  by (auto simp: rows_with_def insert_or_replace_def intro!: filter_cong)

lemma rows_with_insert_same:
  "rows_with csum (insert_or_replace now (fname, fpath, fsize, csum, lm) db) =
     [\<lparr>row_id = next_id db, filename = fname, path = fpath, upload_date = now,
       file_size = fsize, checksum = csum, last_modified = lm\<rparr>]"
  by (simp add: rows_with_def insert_or_replace_def)

lemma rows_with_insert_all_other:
  "c \<notin> pending_checksum ` set recs \<Longrightarrow> rows_with c (insert_all eng k db recs) = rows_with c db"
proof (induction recs arbitrary: k db)
  case Nil
  then show ?case by simp
next
  case (Cons rec recs)
  obtain p s c' lm where rec: "rec = (p, s, c', lm)" by (cases rec) auto
  from Cons.prems have "c \<noteq> c'" and "c \<notin> pending_checksum ` set recs"
    by (auto simp: rec pending_checksum_def)
  then show ?case
    by (simp add: rec Cons.IH rows_with_insert_other)
qed

lemma rows_with_insert_all_same:
  "c \<in> pending_checksum ` set recs \<Longrightarrow>
   \<exists>r. rows_with c (insert_all eng k db recs) = [r] \<and>
       written_from r (last (filter (\<lambda>rec. pending_checksum rec = c) recs))"
proof (induction recs arbitrary: k db)
  case Nil
  then show ?case by simp
next
  case (Cons rec recs)
  obtain p s c' lm where rec: "rec = (p, s, c', lm)" by (cases rec) auto
  show ?case
  proof (cases "c \<in> pending_checksum ` set recs")
    case True
    then have ne: "filter (\<lambda>rec. pending_checksum rec = c) recs \<noteq> []"
      by (auto simp: filter_empty_conv)
    from Cons.IH [OF True] ne show ?thesis
      by (simp add: rec)
  next
    case False
    with Cons.prems have c: "c' = c" by (auto simp: rec pending_checksum_def)
    from False have "filter (\<lambda>rec. pending_checksum rec = c) recs = []"
      by (auto simp: filter_empty_conv)
    with False show ?thesis
      by (simp add: rec c rows_with_insert_all_other rows_with_insert_same
          written_from_def pending_checksum_def)
  qed
qed

lemma insert_or_replace_distinct:
  "distinct (map checksum (file_metadata db)) \<Longrightarrow>
   distinct (map checksum (file_metadata (insert_or_replace now v db)))"
  by (cases v) (auto simp: insert_or_replace_def distinct_map_filter)

lemma insert_all_distinct:
  "distinct (map checksum (file_metadata db)) \<Longrightarrow>
   distinct (map checksum (file_metadata (insert_all eng k db recs)))"
proof (induction recs arbitrary: k db)
  case Nil
  then show ?case by simp
next
  case (Cons rec recs)
  obtain p s c' lm where rec: "rec = (p, s, c', lm)" by (cases rec) auto
  from Cons.prems show ?case
    by (simp add: rec Cons.IH insert_or_replace_distinct)
qed

lemma execute_all_disk: "execute_all eng k c recs = (r, c') \<Longrightarrow> disk c' = disk c"
proof (induction recs arbitrary: k c)
  case Nil
  then show ?case by simp
next
  case (Cons rec recs)
  then show ?case
    by (cases rec) (auto simp: execute_insert_def Let_def split: if_splits)
qed

lemma execute_all_char:
  "execute_all eng k c recs = (r, c') \<Longrightarrow>
   (if \<forall>i<length recs. \<not> statement_fails eng (k + i)
    then r = None \<and> view c' = insert_all eng k (view c) recs
    else r = Some OperationalError)"
proof (induction recs arbitrary: k c)
  case Nil
  then show ?case by simp
next
  case (Cons rec recs)
  obtain p s c0 lm where rec: "rec = (p, s, c0, lm)" by (cases rec) auto
  show ?case
  proof (cases "statement_fails eng k")
    case True
    then have n: "\<not> (\<forall>i<length (rec # recs). \<not> statement_fails eng (k + i))" by force
    from True Cons.prems have "r = Some OperationalError"
      by (simp add: rec execute_insert_def Let_def)
    with n show ?thesis
      by (simp only: if_False)
  next
    case False
    let ?c1 = "c\<lparr>txn := Some (insert_or_replace (current_timestamp eng k)
                      (basename p, p, s, c0, normalize_tz lm) (view c))\<rparr>"
    from False Cons.prems have ex: "execute_all eng (Suc k) ?c1 recs = (r, c')"
      by (simp add: rec execute_insert_def Let_def)
    have v: "view ?c1 = insert_or_replace (current_timestamp eng k)
                      (basename p, p, s, c0, normalize_tz lm) (view c)"
      by (simp add: view_def)
    have q: "(\<forall>i<length (rec # recs). \<not> statement_fails eng (k + i)) \<longleftrightarrow>
             (\<forall>i<length recs. \<not> statement_fails eng (Suc k + i))"
      using False by (auto simp: less_Suc_eq_0_disj)
    from Cons.IH [OF ex] show ?thesis
      unfolding q by (simp add: v rec)
  qed
qed

lemma update_file_metadata_char:
  "update_file_metadata eng db recs =
     (if (\<forall>i<length recs. \<not> statement_fails eng i) \<and> \<not> commit_fails eng
      then (Inr (), insert_all eng 0 db recs, [Updated (length recs)])
      else (Inl OperationalError, db, []))"
proof -
  obtain r c where ex: "execute_all eng 0 (connect db) recs = (r, c)"
    by (cases "execute_all eng 0 (connect db) recs") auto
  have d: "disk c = db"
    using execute_all_disk [OF ex] by (simp add: connect_def)
  have v: "view (connect db) = db"
    by (simp add: view_def connect_def)
  show ?thesis
  proof (cases "\<forall>i<length recs. \<not> statement_fails eng i")
    case True
    with execute_all_char [OF ex] have "r = None" and "view c = insert_all eng 0 db recs"
      by (simp_all add: v)
    with True d show ?thesis
      by (simp add: update_file_metadata_def ex close_def commit_def)
  next
    case False
    with execute_all_char [OF ex] have "r = Some OperationalError"
      by simp
    with False d show ?thesis
      by (simp add: update_file_metadata_def ex close_def)
  qed
qed

lemma read_blocks_concat: "concat (read_blocks bs) = bs"
proof (induction bs rule: read_blocks.induct)
  case (1 rest)
  show ?case
  proof (cases "take 4096 rest = []")
    case True
    then have "rest = []" by (cases rest) auto
    then show ?thesis by (simp add: read_blocks.simps [of "[]"])
  next
    case False
    have "read_blocks rest = take 4096 rest # read_blocks (drop 4096 rest)"
      using False by (subst read_blocks.simps) (simp add: Let_def)
    moreover have "concat (read_blocks (drop 4096 rest)) = drop 4096 rest"
      by (rule "1.IH" [OF refl False])
    ultimately show ?thesis by simp
  qed
qed

lemma read_blocks_sizes: "c \<in> set (read_blocks bs) \<Longrightarrow> 0 < length c \<and> length c \<le> 4096"
proof (induction bs rule: read_blocks.induct)
  case (1 rest)
  show ?case
  proof (cases "take 4096 rest = []")
    case True
    with "1.prems" show ?thesis by (simp add: read_blocks.simps [of rest])
  next
    case False
    have "read_blocks rest = take 4096 rest # read_blocks (drop 4096 rest)"
      using False by (subst read_blocks.simps) (simp add: Let_def)
    with "1.prems" have "c = take 4096 rest \<or> c \<in> set (read_blocks (drop 4096 rest))"
      by simp
    then show ?thesis
    proof
      assume "c = take 4096 rest"
      with False show ?thesis by simp
    next
      assume "c \<in> set (read_blocks (drop 4096 rest))"
      then show ?thesis by (rule "1.IH" [OF refl False])
    qed
  qed
qed

lemma fold_hasher_update:
  "fold (\<lambda>chunk hasher. hasher_update hasher chunk) chunks h = h @ concat chunks"
  by (induction chunks arbitrary: h) (simp_all add: hasher_update_def)

lemma inspect_path: "inspect w p = Inr (Some rec) \<Longrightarrow> pending_path rec = p"
  by (auto simp: inspect_def pending_path_def split: if_splits sum.splits)

lemma scan_files_inspect:
  "scan_files w tracked root (f # files) (nf, lg) =
     (case inspect w (join root f) of
        Inl e \<Rightarrow> (Inl e, lg)
      | Inr None \<Rightarrow> scan_files w tracked root files (nf, lg)
      | Inr (Some rec) \<Rightarrow>
          if (join root f, pending_checksum rec) \<in> tracked
          then scan_files w tracked root files (nf, lg)
          else scan_files w tracked root files (nf @ [rec], lg @ [Detected (join root f)]))"
  by (simp add: inspect_def Let_def pending_checksum_def split: sum.splits)

lemma scan_files_ok:
  "\<forall>f\<in>set files. \<forall>e. inspect w (join root f) \<noteq> Inl e \<Longrightarrow>
   scan_files w tracked root files (nf, lg) =
     (Inr (nf @ new_records w tracked (map (join root) files)),
      lg @ map (Detected \<circ> pending_path) (new_records w tracked (map (join root) files)))"
proof (induction files arbitrary: nf lg)
  case Nil
  then show ?case by simp
next
  case (Cons f files)
  then have ih: "\<And>nf lg. scan_files w tracked root files (nf, lg) =
     (Inr (nf @ new_records w tracked (map (join root) files)),
      lg @ map (Detected \<circ> pending_path) (new_records w tracked (map (join root) files)))"
    by simp
  from Cons.prems have ne: "\<forall>e. inspect w (join root f) \<noteq> Inl e" by simp
  show ?case
  proof (cases "inspect w (join root f)")
    case (Inl e)
    with ne show ?thesis by simp
  next
    case (Inr x)
    show ?thesis
    proof (cases x)
      case None
      with Inr show ?thesis
        by (simp only: scan_files_inspect ih) simp
    next
      case (Some rec)
      with Inr inspect_path [of w "join root f" rec] show ?thesis
        by (simp only: scan_files_inspect ih) simp
    qed
  qed
qed

lemma scan_files_err:
  "\<exists>f\<in>set files. \<exists>e. inspect w (join root f) = Inl e \<Longrightarrow>
   \<exists>e lg'. scan_files w tracked root files (nf, lg) = (Inl e, lg')"
proof (induction files arbitrary: nf lg)
  case Nil
  then show ?case by simp
next
  case (Cons f files)
  show ?case
  proof (cases "inspect w (join root f)")
    case (Inl e)
    then show ?thesis by (simp only: scan_files_inspect) simp
  next
    case (Inr x)
    with Cons.prems have "\<exists>f\<in>set files. \<exists>e. inspect w (join root f) = Inl e"
      by auto
    from Cons.IH [OF this] Inr show ?thesis
      by (simp only: scan_files_inspect) (simp split: option.splits)
  qed
qed

lemma new_records_append:
  "new_records w tracked (ps @ qs) = new_records w tracked ps @ new_records w tracked qs"
  by (induction ps) (auto split: sum.splits option.splits)

lemma scan_walk_ok:
  "\<forall>p\<in>set (paths_of triples). \<forall>e. inspect w p \<noteq> Inl e \<Longrightarrow>
   scan_walk w tracked triples (nf, lg) =
     (Inr (nf @ new_records w tracked (paths_of triples)),
      lg @ map (Detected \<circ> pending_path) (new_records w tracked (paths_of triples)))"
proof (induction triples arbitrary: nf lg)
  case Nil
  then show ?case by (simp add: paths_of_def)
next
  case (Cons t triples)
  obtain root dirs files where t: "t = (root, dirs, files)" by (cases t) auto
  have p: "paths_of ((root, dirs, files) # triples) = map (join root) files @ paths_of triples"
    by (simp add: paths_of_def)
  from Cons.prems have 1: "\<forall>f\<in>set files. \<forall>e. inspect w (join root f) \<noteq> Inl e"
    and 2: "\<forall>p\<in>set (paths_of triples). \<forall>e. inspect w p \<noteq> Inl e"
    by (auto simp: p t)
  show ?case
    by (simp add: t scan_files_ok [OF 1] Cons.IH [OF 2] p new_records_append)
qed

lemma scan_walk_err:
  "\<exists>p\<in>set (paths_of triples). \<exists>e. inspect w p = Inl e \<Longrightarrow>
   \<exists>e lg'. scan_walk w tracked triples (nf, lg) = (Inl e, lg')"
proof (induction triples arbitrary: nf lg)
  case Nil
  then show ?case by (simp add: paths_of_def)
next
  case (Cons t triples)
  obtain root dirs files where t: "t = (root, dirs, files)" by (cases t) auto
  have p: "paths_of ((root, dirs, files) # triples) = map (join root) files @ paths_of triples"
    by (simp add: paths_of_def)
  show ?case
  proof (cases "\<exists>f\<in>set files. \<exists>e. inspect w (join root f) = Inl e")
    case True
    from scan_files_err [OF True, of tracked nf lg] show ?thesis
      by (auto simp: t)
  next
    case False
    then have 1: "\<forall>f\<in>set files. \<forall>e. inspect w (join root f) \<noteq> Inl e" by blast
    from False Cons.prems have "\<exists>p\<in>set (paths_of triples). \<exists>e. inspect w p = Inl e"
      by (auto simp: p t)
    from Cons.IH [OF this] show ?thesis
      by (simp add: t scan_files_ok [OF 1])
  qed
qed

lemma scan_walk_cases:
  "(\<exists>e lg'. scan_walk w tracked triples (nf, lg) = (Inl e, lg') \<and>
       (\<exists>p\<in>set (paths_of triples). \<exists>e. inspect w p = Inl e)) \<or>
   (scan_walk w tracked triples (nf, lg) =
     (Inr (nf @ new_records w tracked (paths_of triples)),
      lg @ map (Detected \<circ> pending_path) (new_records w tracked (paths_of triples))) \<and>
    (\<forall>p\<in>set (paths_of triples). \<forall>e. inspect w p \<noteq> Inl e))"
  using scan_walk_ok [of triples w tracked nf lg] scan_walk_err [of triples w tracked nf lg]
  by blast

lemma new_records_mem:
  "rec \<in> set (new_records w tracked ps) \<longleftrightarrow>
   (\<exists>p\<in>set ps. inspect w p = Inr (Some rec) \<and> (p, pending_checksum rec) \<notin> tracked)"
  by (induction ps) (auto split: sum.splits option.splits)

lemma calculate_checksum_eq:
  "calculate_checksum w p = (case file_bytes w p of Inl e \<Rightarrow> Inl e | Inr bs \<Rightarrow> Inr (hex (sha256 w bs)))"
  by (simp add: calculate_checksum_def hexdigest_def fold_hasher_update read_blocks_concat split: sum.splits)

lemma example_digests:
  "hex (sha256_table hello_bytes) = hello_sha256"
  "hex (sha256_table world_bytes) = world_sha256"
  "hex (sha256_table hello2_bytes) = hello2_sha256"
  by (simp_all add: sha256_table_def hello_bytes_def world_bytes_def hello2_bytes_def
      hello_sha256_def world_sha256_def hello2_sha256_def hex_def hexchar_def)

lemma example_sizes:
  "length hello_bytes = 5" "length world_bytes = 5" "length hello2_bytes = 6"
  by (simp_all add: hello_bytes_def world_bytes_def hello2_bytes_def)

lemma example_distinct:
  "hello_sha256 \<noteq> world_sha256" "world_sha256 \<noteq> hello_sha256"
  "hello_sha256 \<noteq> hello2_sha256" "hello2_sha256 \<noteq> hello_sha256"
  "world_sha256 \<noteq> hello2_sha256" "hello2_sha256 \<noteq> world_sha256"
  by (simp_all add: hello_sha256_def world_sha256_def hello2_sha256_def)

lemmas run_defs = check_for_new_files_def get_tracked_files_def isfile_def join_def
  calculate_checksum_eq example_digests example_sizes example_distinct fromtimestamp_def
  datetime_min_def datetime_max_def
  update_file_metadata_char
  insert_or_replace_def next_id_def basename_def normalize_tz_def replace_tzinfo_def Let_def

lemma world_simps:
  "walk (flat_world root entries) d = (if d = root then [(root, [], map fst entries)] else [])"
  "islink (flat_world root entries) p =
     (case map_of (map (\<lambda>(name, n). (join root name, n)) entries) p of None \<Rightarrow> False | Some n \<Rightarrow> is_link n)"
  "stat_type (flat_world root entries) p =
     (case map_of (map (\<lambda>(name, n). (join root name, n)) entries) p of None \<Rightarrow> None | Some n \<Rightarrow> found n)"
  "getsize (flat_world root entries) p =
     (case map_of (map (\<lambda>(name, n). (join root name, n)) entries) p of None \<Rightarrow> Inl OSError
                    | Some n \<Rightarrow> if found n = None then Inl OSError else Inr (size n))"
  "getmtime (flat_world root entries) p =
     (case map_of (map (\<lambda>(name, n). (join root name, n)) entries) p of None \<Rightarrow> Inl OSError
                    | Some n \<Rightarrow> if found n = None then Inl OSError else Inr (mtime n))"
  "file_bytes (flat_world root entries) p =
     (case map_of (map (\<lambda>(name, n). (join root name, n)) entries) p of None \<Rightarrow> Inl OSError | Some n \<Rightarrow> content n)"
  "sha256 (flat_world root entries) = sha256_table"
  "utcoffset (flat_world root entries) = (\<lambda>t. 3600)"
  by (simp_all add: flat_world_def Let_def)

lemma length_filter_other:
  "distinct (map checksum rs) \<Longrightarrow> c \<in> checksum ` set rs \<Longrightarrow>
   Suc (length (filter (\<lambda>r. checksum r \<noteq> c) rs)) = length rs"
proof (induction rs)
  case Nil
  then show ?case by simp
next
  case (Cons r rs)
  show ?case
  proof (cases "checksum r = c")
    case True
    with Cons.prems have "c \<notin> set (map checksum rs)" by simp
    then have "\<forall>x\<in>set rs. checksum x \<noteq> c" by (auto simp: image_iff)
    then have "filter (\<lambda>r. checksum r \<noteq> c) rs = rs" by (simp add: filter_id_conv)
    with True show ?thesis by simp
  next
    case False
    with Cons show ?thesis by auto
  qed
qed

lemma apply_operation_distinct:
  "distinct (map checksum (rows_of f)) \<Longrightarrow> distinct (map checksum (rows_of (apply_operation f x)))"
proof (cases x)
  case Initialize
  assume "distinct (map checksum (rows_of f))"
  then show ?thesis
    by (cases f) (simp_all add: Initialize rows_of_def initialize_sqlite_db_def)
next
  case LoadTracked
  assume "distinct (map checksum (rows_of f))"
  then show ?thesis by (simp add: LoadTracked)
next
  case (Upsert eng recs)
  assume d: "distinct (map checksum (rows_of f))"
  show ?thesis
  proof (cases f)
    case None
    then show ?thesis by (simp add: Upsert rows_of_def)
  next
    case (Some db)
    with d have "distinct (map checksum (file_metadata db))" by (simp add: rows_of_def)
    then show ?thesis
      by (simp add: Some Upsert rows_of_def update_file_metadata_char insert_all_distinct)
  qed
qed

lemma foldl_apply_operation_distinct:
  "distinct (map checksum (rows_of f)) \<Longrightarrow>
   distinct (map checksum (rows_of (foldl apply_operation f ops)))"
  by (induction ops arbitrary: f) (simp_all add: apply_operation_distinct)

lemma insert_all_rows:
  "r \<in> set (file_metadata (insert_all eng k db recs)) \<Longrightarrow>
   r \<in> set (file_metadata db) \<or> (\<exists>rec\<in>set recs. written_from r rec)"
proof (induction recs arbitrary: k db)
  case Nil
  then show ?case by simp
next
  case (Cons rec recs)
  obtain p s c lm where rec: "rec = (p, s, c, lm)" by (cases rec) auto
  let ?db1 = "insert_or_replace (current_timestamp eng k) (basename p, p, s, c, normalize_tz lm) db"
  from Cons.prems have "r \<in> set (file_metadata (insert_all eng (Suc k) ?db1 recs))"
    by (simp add: rec)
  from Cons.IH [OF this] show ?case
  proof
    assume "r \<in> set (file_metadata ?db1)"
    then have "r \<in> set (file_metadata db) \<or> written_from r rec"
      by (auto simp: insert_or_replace_def written_from_def rec)
    then show ?thesis by auto
  next
    assume "\<exists>rec\<in>set recs. written_from r rec"
    then show ?thesis by auto
  qed
qed

lemma inspect_Some:
  "inspect w p = Inr (Some rec) \<Longrightarrow>
   \<exists>s t c lm. isfile w p \<and> getsize w p = Inr s \<and> getmtime w p = Inr t \<and>
     fromtimestamp w t = Inr lm \<and> calculate_checksum w p = Inr c \<and> rec = (p, s, c, lm)"
  by (auto simp: inspect_def split: if_splits sum.splits)

lemma check_for_new_files_ok:
  assumes "\<forall>p\<in>set (visited w d). \<forall>e. inspect w p \<noteq> Inl e"
  shows "check_for_new_files w eng db d =
     (let recs = new_records w (get_tracked_files db) (visited w d);
          lg = Checking d # map (Detected \<circ> pending_path) recs
      in if recs \<noteq> [] then
           (case update_file_metadata eng db recs of (out, db', lg') \<Rightarrow> (out, db', lg @ lg'))
         else (Inr (), db, lg @ [NoneFound]))"
  using scan_walk_ok [of "walk w d" w "get_tracked_files db" "[]" "[Checking d]"] assms
  by (simp add: check_for_new_files_def visited_def Let_def)

lemma check_for_new_files_err:
  assumes "\<exists>p\<in>set (visited w d). \<exists>e. inspect w p = Inl e"
  shows "\<exists>e lg. check_for_new_files w eng db d = (Inl e, db, lg)"
proof -
  from scan_walk_err [of "walk w d" w "get_tracked_files db" "[]" "[Checking d]"] assms
  obtain e lg where "scan_walk w (get_tracked_files db) (walk w d) ([], [Checking d]) = (Inl e, lg)"
    by (auto simp: visited_def)
  then show ?thesis
    by (simp add: check_for_new_files_def)
qed

lemma check_for_new_files_changed:
  assumes "check_for_new_files w eng db d = (out, db', lg)" and "db' \<noteq> db"
  shows "out = Inr () \<and> db' = insert_all eng 0 db (new_records w (get_tracked_files db) (visited w d))"
proof (cases "\<exists>p\<in>set (visited w d). \<exists>e. inspect w p = Inl e")
  case True
  from check_for_new_files_err [OF True, of eng db] assms show ?thesis by auto
next
  case False
  then have "\<forall>p\<in>set (visited w d). \<forall>e. inspect w p \<noteq> Inl e" by blast
  from check_for_new_files_ok [OF this, of eng db] assms show ?thesis
    by (auto simp: Let_def update_file_metadata_char split: if_splits)
qed

lemma first_scan:
  "scan_walk two_files (get_tracked_files empty_db) (walk two_files ''data'')
      ([], [Checking ''data'']) =
     (Inr [(''data/a.txt'', 5, hello_sha256, \<lparr>wall = 4600, tzinfo = None\<rparr>),
           (''data/b.txt'', 5, world_sha256, \<lparr>wall = 4600, tzinfo = None\<rparr>)],
      [Checking ''data'', Detected ''data/a.txt'', Detected ''data/b.txt''])"
  by (simp add: two_files_def empty_db_def plain_file_def world_simps run_defs)

lemma first_pass:
  "check_for_new_files two_files steady_engine empty_db ''data'' =
     (Inr (), after_first_pass,
      [Checking ''data'', Detected ''data/a.txt'', Detected ''data/b.txt'', Updated 2])"
  by (simp add: two_files_def steady_engine_def empty_db_def plain_file_def world_simps run_defs
      after_first_pass_def row_a_def row_b_def)

lemma check_for_new_files_success:
  assumes "check_for_new_files w eng db d = (Inr (), db', lg)"
  shows "(\<forall>p\<in>set (visited w d). \<forall>e. inspect w p \<noteq> Inl e) \<and>
         db' = insert_all eng 0 db (new_records w (get_tracked_files db) (visited w d))"
proof (cases "\<exists>p\<in>set (visited w d). \<exists>e. inspect w p = Inl e")
  case True
  from check_for_new_files_err [OF True, of eng db] assms show ?thesis by auto
next
  case False
  then have ok: "\<forall>p\<in>set (visited w d). \<forall>e. inspect w p \<noteq> Inl e" by blast
  from check_for_new_files_ok [OF ok, of eng db] assms
  have "db' = insert_all eng 0 db (new_records w (get_tracked_files db) (visited w d))"
    by (cases "new_records w (get_tracked_files db) (visited w d) = []")
      (auto simp: Let_def update_file_metadata_char split: if_splits)
  with ok show ?thesis by simp
qed

lemma new_records_empty:
  assumes "\<forall>p\<in>set ps. \<forall>rec. inspect w p = Inr (Some rec) \<longrightarrow> (p, pending_checksum rec) \<in> tracked"
  shows "new_records w tracked ps = []"
proof (cases "new_records w tracked ps")
  case Nil
  then show ?thesis .
next
  case (Cons rec recs)
  then have "rec \<in> set (new_records w tracked ps)" by simp
  then obtain p where "p \<in> set ps" "inspect w p = Inr (Some rec)"
    "(p, pending_checksum rec) \<notin> tracked"
    unfolding new_records_mem by blast
  with assms show ?thesis by blast
qed


lemma tracked_rows_with:
  "(p, c) \<in> get_tracked_files db \<longleftrightarrow> (\<exists>r\<in>set (rows_with c db). path r = p)"
  by (auto simp: get_tracked_files_def rows_with_def)

lemma scan_files_regular_only:
  "scan_files w tracked root (filter (\<lambda>f. isfile w (join root f)) files) st =
   scan_files w tracked root files st"
proof (induction files arbitrary: st)
  case Nil
  show ?case by simp
next
  case (Cons f files)
  obtain nf lg where st: "st = (nf, lg)" by (cases st) auto
  show ?case
  proof (cases "isfile w (join root f)")
    case True
    then show ?thesis
      by (simp add: st Cons.IH Let_def split: sum.splits)
  next
    case False
    then show ?thesis
      by (simp add: st Cons.IH)
  qed
qed

lemma scan_walk_regular_only:
  "scan_walk w tracked (regular_only w triples) st = scan_walk w tracked triples st"
proof (induction triples arbitrary: st)
  case Nil
  show ?case by (simp add: regular_only_def)
next
  case (Cons t triples)
  obtain root dirs files where t: "t = (root, dirs, files)" by (cases t) auto
  obtain nf lg where st: "st = (nf, lg)" by (cases st) auto
  have r: "regular_only w (t # triples) =
      (root, dirs, filter (\<lambda>f. isfile w (join root f)) files) # regular_only w triples"
    by (simp add: regular_only_def t)
  show ?case
    unfolding r using Cons.IH
    by (simp add: st t scan_files_regular_only split: prod.splits sum.splits)
qed

lemma scan_files_walk_update:
  "scan_files (w\<lparr>walk := f\<rparr>) tracked root files st = scan_files w tracked root files st"
proof (induction files arbitrary: st)
  case Nil
  show ?case by (cases st) simp
next
  case (Cons a files)
  obtain nf lg where st: "st = (nf, lg)" by (cases st) auto
  show ?case
    by (simp add: st Cons.IH Let_def isfile_def calculate_checksum_def hexdigest_def
        fromtimestamp_def split: sum.splits)
qed

lemma scan_walk_walk_update:
  "scan_walk (w\<lparr>walk := f\<rparr>) tracked triples st = scan_walk w tracked triples st"
proof (induction triples arbitrary: st)
  case Nil
  show ?case by (cases st) simp
next
  case (Cons t triples)
  obtain root dirs files where t: "t = (root, dirs, files)" by (cases t) auto
  obtain nf lg where st: "st = (nf, lg)" by (cases st) auto
  show ?case
    by (simp add: st t Cons.IH scan_files_walk_update split: prod.splits sum.splits)
qed

lemma new_records_split:
  "new_records w tracked (ps @ p # qs) =
     new_records w tracked ps @ new_records w tracked [p] @ new_records w tracked qs"
  using new_records_append [of w tracked ps "p # qs"] new_records_append [of w tracked "[p]" qs]
  by simp

lemma last_record_with:
  assumes v: "ps = xs @ p # qs"
    and i: "inspect w p = Inr (Some rec)"
    and u: "(p, pending_checksum rec) \<notin> tracked"
    and l: "\<forall>q\<in>set qs. \<forall>rec'. inspect w q = Inr (Some rec') \<and>
              pending_checksum rec' = pending_checksum rec \<longrightarrow> (q, pending_checksum rec) \<in> tracked"
  shows "last (filter (\<lambda>x. pending_checksum x = pending_checksum rec) (new_records w tracked ps)) = rec"
proof -
  have 1: "new_records w tracked [p] = [rec]"
    using i u by simp
  have "filter (\<lambda>x. pending_checksum x = pending_checksum rec) (new_records w tracked qs) = []"
  proof (rule ccontr)
    assume "filter (\<lambda>x. pending_checksum x = pending_checksum rec) (new_records w tracked qs) \<noteq> []"
    then obtain x where x: "x \<in> set (new_records w tracked qs)"
      "pending_checksum x = pending_checksum rec"
      by (auto simp: filter_empty_conv)
    from x(1) obtain q where "q \<in> set qs" "inspect w q = Inr (Some x)"
      "(q, pending_checksum x) \<notin> tracked"
      unfolding new_records_mem by blast
    with l x(2) show False by metis
  qed
  moreover have "new_records w tracked ps =
      new_records w tracked xs @ [rec] @ new_records w tracked qs"
    unfolding v new_records_split 1 ..
  ultimately show ?thesis
    by simp
qed

lemma tracked_after_pass:
  assumes inj: "\<forall>p\<in>set ps. \<forall>q\<in>set ps. \<forall>rp rq.
        inspect w p = Inr (Some rp) \<and> inspect w q = Inr (Some rq) \<and>
        pending_checksum rp = pending_checksum rq \<longrightarrow> p = q"
    and p: "p \<in> set ps" "inspect w p = Inr (Some rec)"
  shows "(p, pending_checksum rec) \<in>
           get_tracked_files (insert_all eng k db (new_records w (get_tracked_files db) ps))"
proof -
  let ?tr = "get_tracked_files db"
  let ?recs = "new_records w ?tr ps"
  let ?c = "pending_checksum rec"
  have same: "\<And>x. x \<in> set ?recs \<Longrightarrow> pending_checksum x = ?c \<Longrightarrow> x = rec"
  proof -
    fix x
    assume "x \<in> set ?recs" and c: "pending_checksum x = ?c"
    then obtain q where q: "q \<in> set ps" "inspect w q = Inr (Some x)"
      unfolding new_records_mem by blast
    with inj p c have "q = p" by metis
    with q p show "x = rec" by simp
  qed
  show ?thesis
  proof (cases "(p, ?c) \<in> ?tr")
    case True
    have "?c \<notin> pending_checksum ` set ?recs"
    proof
      assume "?c \<in> pending_checksum ` set ?recs"
      then obtain x where x: "x \<in> set ?recs" "pending_checksum x = ?c" by auto
      with same have "x = rec" by blast
      with x(1) have "rec \<in> set ?recs" by simp
      then obtain q where "inspect w q = Inr (Some rec)" "(q, ?c) \<notin> ?tr"
        unfolding new_records_mem by blast
      with inspect_path [of w q rec] inspect_path [OF p(2)] True show False by simp
    qed
    then have "rows_with ?c (insert_all eng k db ?recs) = rows_with ?c db"
      by (rule rows_with_insert_all_other)
    with True show ?thesis
      by (simp add: tracked_rows_with)
  next
    case False
    with p have m: "rec \<in> set ?recs"
      unfolding new_records_mem by blast
    then have "?c \<in> pending_checksum ` set ?recs" by blast
    from rows_with_insert_all_same [OF this, of eng k db]
    obtain r where r: "rows_with ?c (insert_all eng k db ?recs) = [r]"
      "written_from r (last (filter (\<lambda>x. pending_checksum x = ?c) ?recs))" by blast
    from m have ne: "filter (\<lambda>x. pending_checksum x = ?c) ?recs \<noteq> []"
      by (auto simp: filter_empty_conv)
    from last_in_set [OF ne]
    have "last (filter (\<lambda>x. pending_checksum x = ?c) ?recs) = rec"
      using same by auto
    with r(2) inspect_path [OF p(2)] have "path r = p"
      by (auto simp: written_from_def pending_path_def)
    with r(1) show ?thesis
      by (simp add: tracked_rows_with)
  qed
qed


section \<open>The claims\<close>




text \<open>
  C2, as the code has it. \<open>check_for_new_files\<close> catches no exception: when a visited
  file passes the regular-file check and cannot be read, the pass ends with an exception
  and the database is left as it was. No record of the pass is persisted, those of the
  readable files included.
\<close>

theorem unreadable_file_aborts_pass:
  "p \<in> set (visited w d) \<Longrightarrow> isfile w p \<Longrightarrow> file_bytes w p = Inl e \<Longrightarrow>
   \<exists>e' lg. check_for_new_files w eng db d = (Inl e', db, lg)"
proof -
  assume p: "p \<in> set (visited w d)" and f: "isfile w p" and u: "file_bytes w p = Inl e"
  from f u have "\<exists>e'. inspect w p = Inl e'"
    by (simp add: inspect_def calculate_checksum_def split: sum.splits)
  with p have "\<exists>p\<in>set (visited w d). \<exists>e. inspect w p = Inl e" by blast
  then show ?thesis by (rule check_for_new_files_err)
qed

theorem unreadable_file_aborts_pass_witness:
  "''data/b.txt'' \<in> set (visited one_unreadable ''data'') \<and>
   isfile one_unreadable ''data/b.txt'' \<and>
   file_bytes one_unreadable ''data/b.txt'' = Inl OSError \<and>
   (\<exists>e' lg. check_for_new_files one_unreadable steady_engine empty_db ''data'' =
      (Inl e', empty_db, lg))"
  using unreadable_file_aborts_pass [of "''data/b.txt''" one_unreadable "''data''" OSError
      steady_engine empty_db]
  by (simp add: one_unreadable_def locked_file_def plain_file_def world_simps visited_def
      paths_of_def isfile_def join_def)

theorem unreadable_file_counterexample:
  "visited one_unreadable ''data'' = [''data/a.txt'', ''data/b.txt'', ''data/c.txt''] \<and>
   calculate_checksum one_unreadable ''data/a.txt'' = Inr hello_sha256 \<and>
   calculate_checksum one_unreadable ''data/b.txt'' = Inl OSError \<and>
   calculate_checksum one_unreadable ''data/c.txt'' = Inr hello2_sha256 \<and>
   check_for_new_files one_unreadable steady_engine empty_db ''data'' =
     (Inl OSError, empty_db, [Checking ''data'', Detected ''data/a.txt''])"
  by (simp add: one_unreadable_def locked_file_def plain_file_def world_simps visited_def
      paths_of_def empty_db_def run_defs)

text \<open>
  C3, as the code has it. When no two visited files have the same checksum, a second
  pass over the unchanged tree after a successful first pass finds an empty batch, calls
  no upsert and leaves the database as the first pass left it. (Two files of the same
  content take turns in the single row of their checksum, one pass after the other.)
\<close>

theorem second_pass_persists_nothing:
  assumes run: "check_for_new_files w eng db d = (Inr (), db1, lg1)"
    and inj: "\<forall>p\<in>set (visited w d). \<forall>q\<in>set (visited w d). \<forall>rp rq.
        inspect w p = Inr (Some rp) \<and> inspect w q = Inr (Some rq) \<and>
        pending_checksum rp = pending_checksum rq \<longrightarrow> p = q"
  shows "scan_walk w (get_tracked_files db1) (walk w d) ([], [Checking d]) = (Inr [], [Checking d]) \<and>
         check_for_new_files w eng' db1 d = (Inr (), db1, [Checking d, NoneFound])"
proof -
  from check_for_new_files_success [OF run]
  have ok: "\<forall>p\<in>set (visited w d). \<forall>e. inspect w p \<noteq> Inl e"
    and db1: "db1 = insert_all eng 0 db (new_records w (get_tracked_files db) (visited w d))"
    by simp_all
  have "\<forall>p\<in>set (visited w d). \<forall>rec. inspect w p = Inr (Some rec) \<longrightarrow>
          (p, pending_checksum rec) \<in> get_tracked_files db1"
    unfolding db1 using tracked_after_pass [OF inj] by blast
  then have e: "new_records w (get_tracked_files db1) (visited w d) = []"
    by (rule new_records_empty)
  have 1: "scan_walk w (get_tracked_files db1) (walk w d) ([], [Checking d]) = (Inr [], [Checking d])"
    using scan_walk_ok [of "walk w d" w "get_tracked_files db1" "[]" "[Checking d]"] ok e
    by (simp add: visited_def)
  have 2: "check_for_new_files w eng' db1 d = (Inr (), db1, [Checking d, NoneFound])"
    using check_for_new_files_ok [OF ok, of eng' db1] e by simp
  from 1 2 show ?thesis ..
qed

theorem second_pass_persists_nothing_witness:
  "check_for_new_files two_files steady_engine empty_db ''data'' =
     (Inr (), after_first_pass,
      [Checking ''data'', Detected ''data/a.txt'', Detected ''data/b.txt'', Updated 2]) \<and>
   check_for_new_files two_files faulty_engine after_first_pass ''data'' =
     (Inr (), after_first_pass, [Checking ''data'', NoneFound])"
proof -
  have v: "visited two_files ''data'' = [''data/a.txt'', ''data/b.txt'']"
    by (simp add: two_files_def visited_def paths_of_def world_simps join_def)
  have a: "inspect two_files ''data/a.txt'' =
      Inr (Some (''data/a.txt'', 5, hello_sha256, \<lparr>wall = 4600, tzinfo = None\<rparr>))"
    by (simp add: inspect_def two_files_def plain_file_def world_simps run_defs)
  have b: "inspect two_files ''data/b.txt'' =
      Inr (Some (''data/b.txt'', 5, world_sha256, \<lparr>wall = 4600, tzinfo = None\<rparr>))"
    by (simp add: inspect_def two_files_def plain_file_def world_simps run_defs)
  have inj: "\<forall>p\<in>set (visited two_files ''data''). \<forall>q\<in>set (visited two_files ''data''). \<forall>rp rq.
        inspect two_files p = Inr (Some rp) \<and> inspect two_files q = Inr (Some rq) \<and>
        pending_checksum rp = pending_checksum rq \<longrightarrow> p = q"
    unfolding v by (auto simp: a b pending_checksum_def example_distinct)
  from second_pass_persists_nothing [OF first_pass inj, of faulty_engine] first_pass
  show ?thesis by simp
qed

theorem second_pass_counterexample:
  "check_for_new_files twins steady_engine empty_db ''data'' =
     (Inr (), \<lparr>file_metadata = [twin_b], sqlite_sequence = 2\<rparr>,
      [Checking ''data'', Detected ''data/a.txt'', Detected ''data/b.txt'', Updated 2]) \<and>
   check_for_new_files twins steady_engine \<lparr>file_metadata = [twin_b], sqlite_sequence = 2\<rparr> ''data'' =
     (Inr (), \<lparr>file_metadata = [twin_a], sqlite_sequence = 3\<rparr>,
      [Checking ''data'', Detected ''data/a.txt'', Updated 1])"
  by (simp add: twins_def steady_engine_def empty_db_def plain_file_def world_simps run_defs
      twin_a_def twin_b_def)

text \<open>
  C4. After any sequence of initialize, load and upsert operations the table never holds
  two rows with the same checksum. Upserting a record whose checksum is already in the
  table replaces that row: the table keeps its length, the single row of that checksum
  holds the values of the new record, and the rows of the other checksums are as before.
\<close>

theorem checksum_unique_after_operations:
  "distinct (map checksum (rows_of (foldl apply_operation None ops))) \<and>
   (distinct (map checksum (file_metadata db)) \<and> c \<in> checksum ` set (file_metadata db) \<and>
    update_file_metadata eng db [(p, s, c, lm)] = (Inr (), db', lg) \<longrightarrow>
      distinct (map checksum (file_metadata db')) \<and>
      length (file_metadata db') = length (file_metadata db) \<and>
      (\<exists>r. rows_with c db' = [r] \<and> written_from r (p, s, c, lm)) \<and>
      (\<forall>c'. c' \<noteq> c \<longrightarrow> rows_with c' db' = rows_with c' db))"
proof
  show "distinct (map checksum (rows_of (foldl apply_operation None ops)))"
    by (rule foldl_apply_operation_distinct) (simp add: rows_of_def)
next
  show "distinct (map checksum (file_metadata db)) \<and> c \<in> checksum ` set (file_metadata db) \<and>
    update_file_metadata eng db [(p, s, c, lm)] = (Inr (), db', lg) \<longrightarrow>
      distinct (map checksum (file_metadata db')) \<and>
      length (file_metadata db') = length (file_metadata db) \<and>
      (\<exists>r. rows_with c db' = [r] \<and> written_from r (p, s, c, lm)) \<and>
      (\<forall>c'. c' \<noteq> c \<longrightarrow> rows_with c' db' = rows_with c' db)"
  proof (intro impI, elim conjE)
    assume d: "distinct (map checksum (file_metadata db))"
      and c: "c \<in> checksum ` set (file_metadata db)"
      and u: "update_file_metadata eng db [(p, s, c, lm)] = (Inr (), db', lg)"
    from u have db': "db' = insert_all eng 0 db [(p, s, c, lm)]"
      by (simp add: update_file_metadata_char split: if_splits)
    have 1: "distinct (map checksum (file_metadata db'))"
      unfolding db' by (rule insert_all_distinct [OF d])
    have 2: "length (file_metadata db') = length (file_metadata db)"
      using length_filter_other [OF d c] by (simp add: db' insert_or_replace_def)
    have "c \<in> pending_checksum ` set [(p, s, c, lm)]"
      by (simp add: pending_checksum_def)
    from rows_with_insert_all_same [OF this, of eng 0 db]
    have 3: "\<exists>r. rows_with c db' = [r] \<and> written_from r (p, s, c, lm)"
      by (simp add: db' pending_checksum_def)
    have 4: "\<forall>c'. c' \<noteq> c \<longrightarrow> rows_with c' db' = rows_with c' db"
      by (simp add: db' rows_with_insert_other)
    from 1 2 3 4 show "distinct (map checksum (file_metadata db')) \<and>
      length (file_metadata db') = length (file_metadata db) \<and>
      (\<exists>r. rows_with c db' = [r] \<and> written_from r (p, s, c, lm)) \<and>
      (\<forall>c'. c' \<noteq> c \<longrightarrow> rows_with c' db' = rows_with c' db)"
      by blast
  qed
qed

lemma upsert_one_row:
  "update_file_metadata steady_engine one_row_db
     [(''data/b.txt'', 7, hello_sha256, \<lparr>wall = 9, tzinfo = None\<rparr>)] =
   (Inr (),
    \<lparr>file_metadata =
       [\<lparr>row_id = 2, filename = ''b.txt'', path = ''data/b.txt'', upload_date = 500,
         file_size = 7, checksum = hello_sha256,
         last_modified = \<lparr>wall = 9, tzinfo = Some UTC\<rparr>\<rparr>],
     sqlite_sequence = 2\<rparr>,
    [Updated 1])"
  by (simp add: steady_engine_def one_row_db_def run_defs)

theorem checksum_unique_after_operations_witness:
  "distinct (map checksum (file_metadata one_row_db)) \<and>
   hello_sha256 \<in> checksum ` set (file_metadata one_row_db) \<and>
   update_file_metadata steady_engine one_row_db
     [(''data/b.txt'', 7, hello_sha256, \<lparr>wall = 9, tzinfo = None\<rparr>)] =
   (Inr (),
    \<lparr>file_metadata =
       [\<lparr>row_id = 2, filename = ''b.txt'', path = ''data/b.txt'', upload_date = 500,
         file_size = 7, checksum = hello_sha256,
         last_modified = \<lparr>wall = 9, tzinfo = Some UTC\<rparr>\<rparr>],
     sqlite_sequence = 2\<rparr>,
    [Updated 1]) \<and>
   length (file_metadata
     \<lparr>file_metadata =
       [\<lparr>row_id = 2, filename = ''b.txt'', path = ''data/b.txt'', upload_date = 500,
         file_size = 7, checksum = hello_sha256,
         last_modified = \<lparr>wall = 9, tzinfo = Some UTC\<rparr>\<rparr>],
     sqlite_sequence = 2\<rparr>) = length (file_metadata one_row_db) \<and>
   distinct (map checksum (rows_of (foldl apply_operation None
     [Initialize, Upsert steady_engine [(''data/b.txt'', 7, hello_sha256, \<lparr>wall = 9, tzinfo = None\<rparr>)],
      LoadTracked])))"
  using checksum_unique_after_operations [of
      "[Initialize, Upsert steady_engine [(''data/b.txt'', 7, hello_sha256, \<lparr>wall = 9, tzinfo = None\<rparr>)],
        LoadTracked]"
      one_row_db "hello_sha256" steady_engine "''data/b.txt''" 7 "\<lparr>wall = 9, tzinfo = None\<rparr>"
      "\<lparr>file_metadata =
       [\<lparr>row_id = 2, filename = ''b.txt'', path = ''data/b.txt'', upload_date = 500,
         file_size = 7, checksum = hello_sha256,
         last_modified = \<lparr>wall = 9, tzinfo = Some UTC\<rparr>\<rparr>],
     sqlite_sequence = 2\<rparr>" "[Updated 1]"]
    upsert_one_row
  by (simp add: one_row_db_def)

lemma hexchar_mem: "hexchar n \<in> hex_digits"
  unfolding hexchar_def hex_digits_def by (rule nth_mem) simp

lemma hex_length: "length (hex bs) = 2 * length bs"
  by (induction bs) (simp_all add: hex_def)

lemma hex_set: "set (hex bs) \<subseteq> hex_digits"
  by (induction bs) (simp_all add: hex_def hexchar_mem)

lemma read_blocks_Nil: "read_blocks [] = []"
  by (simp add: read_blocks.simps [of "[]"])

lemma read_blocks_step:
  "rest \<noteq> [] \<Longrightarrow> read_blocks rest = take 4096 rest # read_blocks (drop 4096 rest)"
  by (subst read_blocks.simps) (simp add: Let_def)

lemma read_blocks_full: "c \<in> set (butlast (read_blocks bs)) \<Longrightarrow> length c = 4096"
proof (induction bs rule: read_blocks.induct)
  case (1 rest)
  show ?case
  proof (cases "rest = []")
    case True
    with "1.prems" show ?thesis by (simp add: read_blocks_Nil)
  next
    case False
    then have t: "take 4096 rest \<noteq> []" by simp
    note step = read_blocks_step [OF False]
    show ?thesis
    proof (cases "read_blocks (drop 4096 rest) = []")
      case True
      with "1.prems" step show ?thesis by simp
    next
      case more: False
      with "1.prems" step
      have "c = take 4096 rest \<or> c \<in> set (butlast (read_blocks (drop 4096 rest)))"
        by simp
      then show ?thesis
      proof
        assume c: "c = take 4096 rest"
        from more have "drop 4096 rest \<noteq> []"
          using read_blocks_Nil by auto
        then have "4096 < length rest" by simp
        with c show ?thesis by simp
      next
        assume "c \<in> set (butlast (read_blocks (drop 4096 rest)))"
        then show ?thesis by (rule "1.IH" [OF refl t])
      qed
    qed
  qed
qed

text \<open>
  C5. \<open>calculate_checksum\<close> returns the digest, in lowercase hexadecimal, of the
  whole content of the file: the blocks that it reads are non-empty, of 4096 bytes each
  but for the last, which may be shorter, and together they are the content. The result has two digits for each byte of
  the digest. It depends on the content only, and for a file of length zero it is the
  digest of the empty input.
\<close>

theorem calculate_checksum_digest:
  "file_bytes w p = Inr bs \<Longrightarrow>
     calculate_checksum w p = Inr (hex (sha256 w (concat (read_blocks bs)))) \<and>
     concat (read_blocks bs) = bs \<and>
     (\<forall>c\<in>set (read_blocks bs). 0 < length c \<and> length c \<le> 4096) \<and>
     (\<forall>c\<in>set (butlast (read_blocks bs)). length c = 4096) \<and>
     length (hex (sha256 w bs)) = 2 * length (sha256 w bs) \<and>
     set (hex (sha256 w bs)) \<subseteq> hex_digits \<and>
     (bs = [] \<longrightarrow> calculate_checksum w p = Inr (hex (sha256 w []))) \<and>
     (\<forall>q. file_bytes w q = Inr bs \<longrightarrow> calculate_checksum w q = calculate_checksum w p)"
  using read_blocks_sizes [of _ bs] read_blocks_full [of _ bs]
  by (simp add: calculate_checksum_eq read_blocks_concat hex_length hex_set)

theorem calculate_checksum_digest_witness:
  "file_bytes two_files ''data/a.txt'' = Inr hello_bytes \<and>
   calculate_checksum two_files ''data/a.txt'' = Inr hello_sha256 \<and>
   concat (read_blocks hello_bytes) = hello_bytes"
  using calculate_checksum_digest [of two_files "''data/a.txt''" hello_bytes]
  by (simp add: two_files_def world_simps join_def plain_file_def example_digests)

text \<open>
  C6. The batched persistence call is all or nothing. When no statement and not the
  commit fails, \<open>_update_file_metadata\<close> succeeds and every record of the batch is in
  the database: for each record the table holds exactly one row of its checksum, with
  the values of the last record of the batch that has this checksum, and the rows of the
  checksums that are not in the batch are as before. Otherwise it fails with the
  exception and the database file is as it was. In a detection pass a failure of the
  call is the outcome of the pass, which leaves the database unchanged.
\<close>

theorem batch_all_or_nothing:
  "(update_file_metadata eng db recs = (out, db', lg) \<longrightarrow>
      (out = Inr () \<and> (\<forall>i<length recs. \<not> statement_fails eng i) \<and> \<not> commit_fails eng \<and>
       lg = [Updated (length recs)] \<and> db' = insert_all eng 0 db recs \<and>
       (\<forall>rec\<in>set recs. \<exists>r. rows_with (pending_checksum rec) db' = [r] \<and>
          written_from r (last (filter (\<lambda>x. pending_checksum x = pending_checksum rec) recs))) \<and>
       (\<forall>c. c \<notin> pending_checksum ` set recs \<longrightarrow> rows_with c db' = rows_with c db)) \<or>
      (out = Inl OperationalError \<and>
       ((\<exists>i<length recs. statement_fails eng i) \<or> commit_fails eng) \<and>
       db' = db \<and> lg = [])) \<and>
   (scan_walk w (get_tracked_files db2) (walk w d) ([], [Checking d]) = (Inr recs2, lg2) \<and>
    recs2 \<noteq> [] \<and> update_file_metadata eng2 db2 recs2 = (Inl e, db2', lg2') \<longrightarrow>
      db2' = db2 \<and> check_for_new_files w eng2 db2 d = (Inl e, db2, lg2))"
proof (intro conjI impI)
  assume u: "update_file_metadata eng db recs = (out, db', lg)"
  show "(out = Inr () \<and> (\<forall>i<length recs. \<not> statement_fails eng i) \<and> \<not> commit_fails eng \<and>
       lg = [Updated (length recs)] \<and> db' = insert_all eng 0 db recs \<and>
       (\<forall>rec\<in>set recs. \<exists>r. rows_with (pending_checksum rec) db' = [r] \<and>
          written_from r (last (filter (\<lambda>x. pending_checksum x = pending_checksum rec) recs))) \<and>
       (\<forall>c. c \<notin> pending_checksum ` set recs \<longrightarrow> rows_with c db' = rows_with c db)) \<or>
      (out = Inl OperationalError \<and>
       ((\<exists>i<length recs. statement_fails eng i) \<or> commit_fails eng) \<and>
       db' = db \<and> lg = [])"
  proof (cases "(\<forall>i<length recs. \<not> statement_fails eng i) \<and> \<not> commit_fails eng")
    case True
    with u have r: "out = Inr ()" "lg = [Updated (length recs)]" "db' = insert_all eng 0 db recs"
      by (simp_all add: update_file_metadata_char)
    have each: "\<forall>rec\<in>set recs. \<exists>r. rows_with (pending_checksum rec) db' = [r] \<and>
          written_from r (last (filter (\<lambda>x. pending_checksum x = pending_checksum rec) recs))"
    proof
      fix rec
      assume "rec \<in> set recs"
      then have "pending_checksum rec \<in> pending_checksum ` set recs" by (rule imageI)
      from rows_with_insert_all_same [OF this, of eng 0 db]
      show "\<exists>r. rows_with (pending_checksum rec) db' = [r] \<and>
          written_from r (last (filter (\<lambda>x. pending_checksum x = pending_checksum rec) recs))"
        unfolding r(3) .
    qed
    have rest: "\<forall>c. c \<notin> pending_checksum ` set recs \<longrightarrow> rows_with c db' = rows_with c db"
      unfolding r(3) by (simp add: rows_with_insert_all_other)
    from True r each rest show ?thesis by blast
  next
    case False
    with u have "out = Inl OperationalError" "db' = db" "lg = []"
      by (simp_all add: update_file_metadata_char)
    with False show ?thesis by blast
  qed
next
  assume a: "scan_walk w (get_tracked_files db2) (walk w d) ([], [Checking d]) = (Inr recs2, lg2) \<and>
    recs2 \<noteq> [] \<and> update_file_metadata eng2 db2 recs2 = (Inl e, db2', lg2')"
  then have "db2' = db2" and "lg2' = []"
    by (simp_all add: update_file_metadata_char split: if_splits)
  with a show "db2' = db2" and "check_for_new_files w eng2 db2 d = (Inl e, db2, lg2)"
    by (simp_all add: check_for_new_files_def)
qed

theorem batch_all_or_nothing_witness:
  "update_file_metadata steady_engine empty_db
     [(''data/a.txt'', 5, hello_sha256, \<lparr>wall = 4600, tzinfo = None\<rparr>),
      (''data/b.txt'', 5, world_sha256, \<lparr>wall = 4600, tzinfo = None\<rparr>)] =
     (Inr (), after_first_pass, [Updated 2]) \<and>
   rows_with hello_sha256 after_first_pass = [row_a] \<and>
   rows_with world_sha256 after_first_pass = [row_b] \<and>
   path row_a = ''data/a.txt'' \<and> path row_b = ''data/b.txt'' \<and>
   scan_walk two_files (get_tracked_files empty_db) (walk two_files ''data'')
      ([], [Checking ''data'']) =
     (Inr [(''data/a.txt'', 5, hello_sha256, \<lparr>wall = 4600, tzinfo = None\<rparr>),
           (''data/b.txt'', 5, world_sha256, \<lparr>wall = 4600, tzinfo = None\<rparr>)],
      [Checking ''data'', Detected ''data/a.txt'', Detected ''data/b.txt'']) \<and>
   update_file_metadata faulty_engine empty_db
     [(''data/a.txt'', 5, hello_sha256, \<lparr>wall = 4600, tzinfo = None\<rparr>),
      (''data/b.txt'', 5, world_sha256, \<lparr>wall = 4600, tzinfo = None\<rparr>)] =
     (Inl OperationalError, empty_db, []) \<and>
   check_for_new_files two_files faulty_engine empty_db ''data'' =
     (Inl OperationalError, empty_db,
      [Checking ''data'', Detected ''data/a.txt'', Detected ''data/b.txt''])"
proof -
  let ?recs = "[(''data/a.txt'', 5, hello_sha256, \<lparr>wall = 4600, tzinfo = None\<rparr>),
                (''data/b.txt'', 5, world_sha256, \<lparr>wall = 4600, tzinfo = None\<rparr>)]"
  have ok: "update_file_metadata steady_engine empty_db ?recs =
      (Inr (), after_first_pass, [Updated 2])"
    by (simp add: steady_engine_def empty_db_def after_first_pass_def row_a_def row_b_def run_defs)
  have bad: "update_file_metadata faulty_engine empty_db ?recs = (Inl OperationalError, empty_db, [])"
    by (simp add: faulty_engine_def update_file_metadata_char)
  have rows: "rows_with hello_sha256 after_first_pass = [row_a]"
    "rows_with world_sha256 after_first_pass = [row_b]"
    "path row_a = ''data/a.txt''" "path row_b = ''data/b.txt''"
    by (simp_all add: rows_with_def after_first_pass_def row_a_def row_b_def example_distinct)
  from batch_all_or_nothing [of steady_engine empty_db ?recs "Inr ()" after_first_pass
      "[Updated 2]" two_files empty_db "''data''" ?recs
      "[Checking ''data'', Detected ''data/a.txt'', Detected ''data/b.txt'']"
      faulty_engine OperationalError empty_db "[]"] ok bad first_scan
  have "check_for_new_files two_files faulty_engine empty_db ''data'' =
     (Inl OperationalError, empty_db,
      [Checking ''data'', Detected ''data/a.txt'', Detected ''data/b.txt''])"
    by simp
  with ok bad rows first_scan show ?thesis by simp
qed




text \<open>
  C8, as the code has it. The entries that \<open>os.path.isfile\<close> rejects (dangling links,
  special files, directories) are skipped without any effect: the pass is the pass over
  the walk without them, and every record of the pending batch is of a path that
  \<open>os.path.isfile\<close> accepts. \<open>os.path.isfile\<close> follows symbolic links, so a link to a
  regular file is hashed and recorded like a regular file.
\<close>

theorem entries_failing_isfile_skipped:
  "check_for_new_files w eng db d =
     check_for_new_files (w\<lparr>walk := (\<lambda>x. regular_only w (walk w x))\<rparr>) eng db d \<and>
   scan_walk w tracked triples st = scan_walk w tracked (regular_only w triples) st \<and>
   (scan_walk w tracked triples ([], lg) = (Inr recs, lg') \<longrightarrow>
      (\<forall>rec\<in>set recs. isfile w (pending_path rec)))"
proof (intro conjI impI)
  show "check_for_new_files w eng db d =
     check_for_new_files (w\<lparr>walk := (\<lambda>x. regular_only w (walk w x))\<rparr>) eng db d"
    by (simp add: check_for_new_files_def scan_walk_walk_update scan_walk_regular_only)
next
  show "scan_walk w tracked triples st = scan_walk w tracked (regular_only w triples) st"
    by (simp add: scan_walk_regular_only)
next
  assume a: "scan_walk w tracked triples ([], lg) = (Inr recs, lg')"
  with scan_walk_cases [of w tracked triples "[]" lg]
  have recs: "recs = new_records w tracked (paths_of triples)" by auto
  show "\<forall>rec\<in>set recs. isfile w (pending_path rec)"
  proof
    fix rec
    assume "rec \<in> set recs"
    then obtain p where "inspect w p = Inr (Some rec)"
      unfolding recs new_records_mem by blast
    with inspect_Some [of w p rec] inspect_path [of w p rec] show "isfile w (pending_path rec)"
      by auto
  qed
qed

theorem entries_failing_isfile_skipped_witness:
  "scan_walk with_links {} (walk with_links ''data'') ([], []) =
     (Inr [(''data/link'', 5, hello_sha256, \<lparr>wall = 4600, tzinfo = None\<rparr>)], [Detected ''data/link'']) \<and>
   regular_only with_links (walk with_links ''data'') = [(''data'', [], [''link''])] \<and>
   isfile with_links ''data/link''"
  using entries_failing_isfile_skipped [of with_links steady_engine empty_db "''data''" "{}"
      "walk with_links ''data''" "([], [])" "[]"
      "[(''data/link'', 5, hello_sha256, \<lparr>wall = 4600, tzinfo = None\<rparr>)]" "[Detected ''data/link'']"]
  by (simp add: with_links_def fifo_def link_to_file_def dangling_link_def world_simps
      regular_only_def run_defs pending_path_def)

theorem symlink_counterexample:
  "islink with_links ''data/link'' \<and>
   check_for_new_files with_links steady_engine empty_db ''data'' =
     (Inr (), \<lparr>file_metadata = [row_link], sqlite_sequence = 1\<rparr>,
      [Checking ''data'', Detected ''data/link'', Updated 1])"
  by (simp add: with_links_def fifo_def link_to_file_def dangling_link_def world_simps
      steady_engine_def empty_db_def row_link_def run_defs)

text \<open>
  C9. A row written by \<open>_update_file_metadata\<close> holds the clock value of the pending
  record it was written from, with UTC as its zone when the record had none and with the
  record's own zone otherwise; so every \<open>last_modified\<close> written is zone-aware. In a
  detection pass the modification time of a file is a local time without zone, and the
  row written for it holds that clock value unchanged, with UTC attached.
\<close>

theorem last_modified_timezone_aware:
  "(update_file_metadata eng db recs = (out, db', lg) \<and>
    r \<in> set (file_metadata db') \<and> r \<notin> set (file_metadata db) \<longrightarrow>
      (\<exists>(p, s, c, lm)\<in>set recs. path r = p \<and> checksum r = c \<and>
          wall (last_modified r) = wall lm \<and>
          tzinfo (last_modified r) = Some (case tzinfo lm of None \<Rightarrow> UTC | Some z \<Rightarrow> z))) \<and>
   (check_for_new_files w eng2 db2 d = (out2, db2', lg2) \<and>
    r2 \<in> set (file_metadata db2') \<and> r2 \<notin> set (file_metadata db2) \<longrightarrow>
      (\<exists>p\<in>set (visited w d). \<exists>t. getmtime w p = Inr t \<and> path r2 = p \<and>
          fromtimestamp w t = Inr \<lparr>wall = t + utcoffset w t, tzinfo = None\<rparr> \<and>
          last_modified r2 = \<lparr>wall = t + utcoffset w t, tzinfo = Some UTC\<rparr>))"
proof (intro conjI impI)
  assume a: "update_file_metadata eng db recs = (out, db', lg) \<and>
    r \<in> set (file_metadata db') \<and> r \<notin> set (file_metadata db)"
  then have "db' = insert_all eng 0 db recs"
    by (auto simp: update_file_metadata_char split: if_splits)
  with a insert_all_rows [of r eng 0 db recs]
  obtain rec where rec: "rec \<in> set recs" "written_from r rec" by auto
  obtain p s c lm where "rec = (p, s, c, lm)" by (cases rec) auto
  with rec show "\<exists>(p, s, c, lm)\<in>set recs. path r = p \<and> checksum r = c \<and>
          wall (last_modified r) = wall lm \<and>
          tzinfo (last_modified r) = Some (case tzinfo lm of None \<Rightarrow> UTC | Some z \<Rightarrow> z)"
    by (intro bexI [of _ "(p, s, c, lm)"])
      (auto simp: written_from_def normalize_tz_def replace_tzinfo_def)
next
  assume a: "check_for_new_files w eng2 db2 d = (out2, db2', lg2) \<and>
    r2 \<in> set (file_metadata db2') \<and> r2 \<notin> set (file_metadata db2)"
  then have "db2' \<noteq> db2" by auto
  with a check_for_new_files_changed [of w eng2 db2 d out2 db2' lg2]
  have "db2' = insert_all eng2 0 db2 (new_records w (get_tracked_files db2) (visited w d))"
    by auto
  with a insert_all_rows [of r2 eng2 0 db2 "new_records w (get_tracked_files db2) (visited w d)"]
  obtain rec where rec: "rec \<in> set (new_records w (get_tracked_files db2) (visited w d))"
    "written_from r2 rec" by auto
  from rec(1) obtain p where p: "p \<in> set (visited w d)" "inspect w p = Inr (Some rec)"
    by (auto simp: new_records_mem)
  from inspect_Some [OF p(2)] obtain s t c lm where
    t: "getmtime w p = Inr t" "fromtimestamp w t = Inr lm" "rec = (p, s, c, lm)" by auto
  from t(2) have lm: "lm = \<lparr>wall = t + utcoffset w t, tzinfo = None\<rparr>"
    by (simp add: fromtimestamp_def Let_def split: if_splits)
  from rec(2) t(3) lm have "path r2 = p"
    and "last_modified r2 = \<lparr>wall = t + utcoffset w t, tzinfo = Some UTC\<rparr>"
    by (simp_all add: written_from_def normalize_tz_def replace_tzinfo_def)
  with p(1) t(1) t(2) lm show "\<exists>p\<in>set (visited w d). \<exists>t. getmtime w p = Inr t \<and> path r2 = p \<and>
          fromtimestamp w t = Inr \<lparr>wall = t + utcoffset w t, tzinfo = None\<rparr> \<and>
          last_modified r2 = \<lparr>wall = t + utcoffset w t, tzinfo = Some UTC\<rparr>"
    by auto
qed

theorem last_modified_timezone_aware_witness:
  "update_file_metadata steady_engine empty_db
      [(''data/c.txt'', 3, hello2_sha256, \<lparr>wall = 7, tzinfo = Some (Offset 60)\<rparr>),
       (''data/a.txt'', 5, hello_sha256, \<lparr>wall = 4600, tzinfo = None\<rparr>)] =
     (Inr (), \<lparr>file_metadata = [row_c, row_a\<lparr>row_id := 2, upload_date := 501\<rparr>],
               sqlite_sequence = 2\<rparr>, [Updated 2]) \<and>
   last_modified row_c = \<lparr>wall = 7, tzinfo = Some (Offset 60)\<rparr> \<and>
   check_for_new_files two_files steady_engine empty_db ''data'' =
     (Inr (), after_first_pass,
      [Checking ''data'', Detected ''data/a.txt'', Detected ''data/b.txt'', Updated 2]) \<and>
   row_a \<in> set (file_metadata after_first_pass) \<and> row_a \<notin> set (file_metadata empty_db) \<and>
   getmtime two_files ''data/a.txt'' = Inr 1000 \<and>
   last_modified row_a = \<lparr>wall = 4600, tzinfo = Some UTC\<rparr>"
  using last_modified_timezone_aware [of steady_engine empty_db
      "[(''data/c.txt'', 3, hello2_sha256, \<lparr>wall = 7, tzinfo = Some (Offset 60)\<rparr>),
        (''data/a.txt'', 5, hello_sha256, \<lparr>wall = 4600, tzinfo = None\<rparr>)]"
      "Inr ()" "\<lparr>file_metadata = [row_c, row_a\<lparr>row_id := 2, upload_date := 501\<rparr>],
               sqlite_sequence = 2\<rparr>" "[Updated 2]" row_c
      two_files steady_engine empty_db "''data''" "Inr ()" after_first_pass
      "[Checking ''data'', Detected ''data/a.txt'', Detected ''data/b.txt'', Updated 2]" row_a]
    first_pass
  by (simp add: steady_engine_def empty_db_def row_a_def row_b_def row_c_def after_first_pass_def
      run_defs two_files_def world_simps plain_file_def)

text \<open>
  C10. When a successful pass visits two files at different places of the walk that have
  the same checksum and are both untracked, both are in the pending batch; afterwards the
  table holds exactly one row of that checksum, and its path and filename are those of
  the later file, provided no still later untracked file has the checksum too.
\<close>

theorem same_content_last_path_wins:
  assumes run: "check_for_new_files w eng db d = (Inr (), db', lg)"
    and order: "visited w d = xs @ p1 # ys @ p2 # qs"
    and first: "inspect w p1 = Inr (Some rec1)" "(p1, c) \<notin> get_tracked_files db"
      "pending_checksum rec1 = c"
    and second: "inspect w p2 = Inr (Some rec2)" "(p2, c) \<notin> get_tracked_files db"
      "pending_checksum rec2 = c"
    and final: "\<forall>q\<in>set qs. \<forall>rec'. inspect w q = Inr (Some rec') \<and> pending_checksum rec' = c \<longrightarrow>
                 (q, c) \<in> get_tracked_files db"
  shows "\<exists>recs lg0 r.
           scan_walk w (get_tracked_files db) (walk w d) ([], [Checking d]) = (Inr recs, lg0) \<and>
           rec1 \<in> set recs \<and> rec2 \<in> set recs \<and>
           rows_with c db' = [r] \<and> path r = p2 \<and> filename r = basename p2"
proof -
  let ?tr = "get_tracked_files db"
  let ?recs = "new_records w ?tr (visited w d)"
  from check_for_new_files_success [OF run]
  have ok: "\<forall>p\<in>set (visited w d). \<forall>e. inspect w p \<noteq> Inl e"
    and db': "db' = insert_all eng 0 db ?recs" by simp_all
  have scan: "scan_walk w ?tr (walk w d) ([], [Checking d]) =
      (Inr ?recs, [Checking d] @ map (Detected \<circ> pending_path) ?recs)"
    using scan_walk_ok [of "walk w d" w ?tr "[]" "[Checking d]"] ok
    by (simp add: visited_def)
  have m1: "rec1 \<in> set ?recs"
    unfolding new_records_mem using first order by auto
  have m2: "rec2 \<in> set ?recs"
    unfolding new_records_mem using second order by auto
  have v: "visited w d = (xs @ p1 # ys) @ p2 # qs"
    using order by simp
  have "last (filter (\<lambda>x. pending_checksum x = pending_checksum rec2) ?recs) = rec2"
    using final second by (intro last_record_with [OF v]) simp_all
  then have l: "last (filter (\<lambda>x. pending_checksum x = c) ?recs) = rec2"
    using second by simp
  from m2 second have "c \<in> pending_checksum ` set ?recs" by force
  from rows_with_insert_all_same [OF this, of eng 0 db] l
  obtain r where r: "rows_with c db' = [r]" "written_from r rec2"
    by (auto simp: db')
  from inspect_path [OF second(1)] r(2) have "path r = p2" "filename r = basename p2"
    by (auto simp: written_from_def pending_path_def)
  with scan m1 m2 r(1) show ?thesis by blast
qed

theorem same_content_last_path_wins_witness:
  "check_for_new_files twins steady_engine empty_db ''data'' =
     (Inr (), \<lparr>file_metadata = [twin_b], sqlite_sequence = 2\<rparr>,
      [Checking ''data'', Detected ''data/a.txt'', Detected ''data/b.txt'', Updated 2]) \<and>
   visited twins ''data'' = [] @ ''data/a.txt'' # [] @ ''data/b.txt'' # [] \<and>
   inspect twins ''data/a.txt'' = Inr (Some (''data/a.txt'', 5, hello_sha256, \<lparr>wall = 4600, tzinfo = None\<rparr>)) \<and>
   inspect twins ''data/b.txt'' = Inr (Some (''data/b.txt'', 5, hello_sha256, \<lparr>wall = 4600, tzinfo = None\<rparr>)) \<and>
   (\<exists>recs lg0 r.
      scan_walk twins (get_tracked_files empty_db) (walk twins ''data'') ([], [Checking ''data'']) =
        (Inr recs, lg0) \<and>
      (''data/a.txt'', 5, hello_sha256, \<lparr>wall = 4600, tzinfo = None\<rparr>) \<in> set recs \<and>
      (''data/b.txt'', 5, hello_sha256, \<lparr>wall = 4600, tzinfo = None\<rparr>) \<in> set recs \<and>
      rows_with hello_sha256 \<lparr>file_metadata = [twin_b], sqlite_sequence = 2\<rparr> = [r] \<and>
      path r = ''data/b.txt'' \<and> filename r = basename ''data/b.txt'')"
proof -
  have run: "check_for_new_files twins steady_engine empty_db ''data'' =
     (Inr (), \<lparr>file_metadata = [twin_b], sqlite_sequence = 2\<rparr>,
      [Checking ''data'', Detected ''data/a.txt'', Detected ''data/b.txt'', Updated 2])"
    by (simp add: twins_def steady_engine_def empty_db_def plain_file_def world_simps run_defs
        twin_b_def)
  have order: "visited twins ''data'' = [] @ ''data/a.txt'' # [] @ ''data/b.txt'' # []"
    by (simp add: twins_def visited_def paths_of_def world_simps join_def)
  have a: "inspect twins ''data/a.txt'' =
      Inr (Some (''data/a.txt'', 5, hello_sha256, \<lparr>wall = 4600, tzinfo = None\<rparr>))"
    by (simp add: inspect_def twins_def plain_file_def world_simps run_defs)
  have b: "inspect twins ''data/b.txt'' =
      Inr (Some (''data/b.txt'', 5, hello_sha256, \<lparr>wall = 4600, tzinfo = None\<rparr>))"
    by (simp add: inspect_def twins_def plain_file_def world_simps run_defs)
  have u: "(''data/a.txt'', hello_sha256) \<notin> get_tracked_files empty_db"
    "(''data/b.txt'', hello_sha256) \<notin> get_tracked_files empty_db"
    by (simp_all add: get_tracked_files_def empty_db_def)
  have c: "pending_checksum (''data/a.txt'', 5, hello_sha256, \<lparr>wall = 4600, tzinfo = None\<rparr>) = hello_sha256"
    "pending_checksum (''data/b.txt'', 5, hello_sha256, \<lparr>wall = 4600, tzinfo = None\<rparr>) = hello_sha256"
    by (simp_all add: pending_checksum_def)
  have f: "\<forall>q\<in>set []. \<forall>rec'. inspect twins q = Inr (Some rec') \<and> pending_checksum rec' = hello_sha256 \<longrightarrow>
                 (q, hello_sha256) \<in> get_tracked_files empty_db"
    by simp
  from same_content_last_path_wins [OF run order a u(1) c(1) b u(2) c(2) f] run order a b
  show ?thesis by blast
qed

end
